theory Spec2Isabelle
  imports Main "HOL-Library.Word" "HOL-Library.Multiset"
begin

unbundle bit_operations_syntax

section \<open>Error codes and machine types\<close>

text \<open>
  The kernel functions return \<open>0\<close> or a negated errno. The model keeps the errno as a
  value; \<open>None\<close> stands for the return value \<open>0\<close>.
\<close>

datatype errno = EPERM | ENOENT | ENOMEM | EFAULT | EBUSY | ENODEV | EINVAL | EOVERFLOW | EOPNOTSUPP

type_synonym ulong = "64 word"
type_synonym uint = "32 word"

text \<open>
  The kernel's \<open>PAGE_SIZE\<close>, for 4 KiB pages. The flag values are those of
  \<open>include/linux/iommufd.h\<close> and \<open>include/linux/iommu.h\<close>.
\<close>

definition PAGE_SIZE :: ulong where
  "PAGE_SIZE = 4096"

definition IOMMUFD_ACCESS_RW_WRITE :: uint where
  "IOMMUFD_ACCESS_RW_WRITE = 1"

definition IOMMU_READ :: uint where
  "IOMMU_READ = 1"

definition IOMMU_WRITE :: uint where
  "IOMMU_WRITE = 2"

text \<open>
  \<open>check_add_overflow(a, b, &d)\<close> on \<open>unsigned long\<close>: the wrapped sum, and whether
  the addition wrapped.
\<close>

definition check_add_overflow :: "ulong \<Rightarrow> ulong \<Rightarrow> bool \<times> ulong" where
  "check_add_overflow a b = (a + b < a, a + b)"

section \<open>Areas and the I/O page table\<close>

text \<open>
  Modelled from the spec: \<open>struct iopt_area\<close> (\<open>io_pagetable.h\<close> is not part of the
  sources). An Area has an inclusive IOVA range, refers to one Pages Store at an offset,
  and carries permission bits; \<open>prevent_access\<close>, \<open>iommu_prot\<close> and \<open>pages\<close> are the
  fields \<open>device.c\<close> reads.
\<close>

record iopt_area =
  node_start :: ulong
  node_last :: ulong
  pages :: nat
  store_offset :: ulong
  iommu_prot :: uint
  prevent_access :: bool

text \<open>An in-kernel access: the fields of \<open>struct iommufd_access\<close> that \<open>device.c\<close> uses.\<close>

record iommufd_access =
  access_data :: nat
  iova_alignment :: ulong
  ops_unmap :: bool
  obj_lockable :: bool

text \<open>
  Modelled from the spec: \<open>struct io_pagetable\<close>. The Areas are kept in IOVA order; a
  reserved region is \<open>(start, last, owner)\<close>; \<open>domains\<close> are the attached hardware
  domains.
\<close>

record io_pagetable =
  area_itree :: "iopt_area list"
  reserved_itree :: "(ulong \<times> ulong \<times> nat) list"
  domains :: "nat list"
  access_list :: "iommufd_access list"

text \<open>
  Modelled from the spec: the state of the Pages Stores. An access is the triple of a
  Pages Store and the first and last page index it holds pinned; its multiplicity is the
  number of users. \<open>mem\<close> is the content of the backing memory by store and byte
  offset. \<open>warned\<close> records that a \<open>WARN_ON\<close> assertion has fired.
\<close>

type_synonym pages_access = "nat \<times> ulong \<times> ulong"

record pages_state =
  accesses :: "pages_access multiset"
  mem :: "nat \<times> ulong \<Rightarrow> 8 word"
  warned :: bool

definition WARN_ON :: "bool \<Rightarrow> pages_state \<Rightarrow> pages_state" where
  "WARN_ON c s = (if c then s\<lparr>warned := True\<rparr> else s)"

definition iopt_area_iova :: "iopt_area \<Rightarrow> ulong" where
  "iopt_area_iova a = node_start a"

definition iopt_area_last_iova :: "iopt_area \<Rightarrow> ulong" where
  "iopt_area_last_iova a = node_last a"

text \<open>
  Modelled from the spec: \<open>iopt_area_start_byte\<close> and \<open>iopt_area_iova_to_index\<close>, the
  byte of the Pages Store that backs an IOVA of the Area, and the page holding it.
\<close>

definition iopt_area_start_byte :: "iopt_area \<Rightarrow> ulong \<Rightarrow> ulong" where
  "iopt_area_start_byte a iova = (iova - iopt_area_iova a) + store_offset a"

definition iopt_area_iova_to_index :: "iopt_area \<Rightarrow> ulong \<Rightarrow> ulong" where
  "iopt_area_iova_to_index a iova = iopt_area_start_byte a iova div PAGE_SIZE"

section \<open>The contiguous-area iterator\<close>

text \<open>
  Modelled from the spec: \<open>iopt_area_iter_first\<close>, the first Area in IOVA order that
  intersects \<open>[start, last]\<close>, together with the Areas after it.
\<close>

fun iopt_area_iter_first :: "iopt_area list \<Rightarrow> ulong \<Rightarrow> ulong \<Rightarrow> (iopt_area \<times> iopt_area list) option" where
  "iopt_area_iter_first [] start lst = None"
| "iopt_area_iter_first (a # as) start lst =
     (if node_start a \<le> lst \<and> start \<le> node_last a then Some (a, as)
      else iopt_area_iter_first as start lst)"

text \<open>
  \<open>struct iopt_area_contig_iter\<close>. \<open>succs\<close> holds the Areas that follow \<open>area\<close> in
  the index, which is what \<open>iopt_area_iter_next\<close> searches.
\<close>

record iopt_area_contig_iter =
  cur_iova :: ulong
  last_iova :: ulong
  area :: "iopt_area option"
  succs :: "iopt_area list"

text \<open>
  Modelled from the spec: \<open>iopt_area_contig_init\<close>, \<open>iopt_area_contig_next\<close> and
  \<open>iopt_area_contig_done\<close>, which walk the Areas that cover \<open>[iova, last_iova]\<close>
  contiguously, in IOVA order. Each returns the iterator and the loop variable; the walk
  stops at a hole, and it is done when the current Area reaches \<open>last_iova\<close>.
\<close>

definition iopt_area_contig_init ::
  "io_pagetable \<Rightarrow> ulong \<Rightarrow> ulong \<Rightarrow> iopt_area_contig_iter \<times> iopt_area option" where
  "iopt_area_contig_init iopt iova lst =
     (case iopt_area_iter_first (area_itree iopt) iova iova of
        None \<Rightarrow> (\<lparr>cur_iova = iova, last_iova = lst, area = None, succs = []\<rparr>, None)
      | Some (a, rest) \<Rightarrow>
          (\<lparr>cur_iova = iova, last_iova = lst, area = Some a, succs = rest\<rparr>, Some a))"

definition iopt_area_contig_next ::
  "iopt_area_contig_iter \<Rightarrow> iopt_area_contig_iter \<times> iopt_area option" where
  "iopt_area_contig_next iter =
     (case area iter of
        None \<Rightarrow> (iter, None)
      | Some a \<Rightarrow>
          if last_iova iter \<le> iopt_area_last_iova a then (iter, None)
          else
            (case iopt_area_iter_first (succs iter) (iopt_area_last_iova a + 1) (last_iova iter) of
               None \<Rightarrow>
                 (iter\<lparr>cur_iova := iopt_area_last_iova a + 1, area := None, succs := []\<rparr>, None)
             | Some (b, rest) \<Rightarrow>
                 if iopt_area_last_iova a + 1 \<noteq> iopt_area_iova b
                 then (iter\<lparr>cur_iova := iopt_area_last_iova a + 1, area := None, succs := []\<rparr>,
                       None)
                 else (iter\<lparr>cur_iova := iopt_area_last_iova a + 1, area := Some b, succs := rest\<rparr>,
                       Some b)))"

definition iopt_area_contig_done :: "iopt_area_contig_iter \<Rightarrow> bool" where
  "iopt_area_contig_done iter =
     (case area iter of None \<Rightarrow> False | Some a \<Rightarrow> last_iova iter \<le> iopt_area_last_iova a)"

lemma iopt_area_iter_first_shorter:
  "iopt_area_iter_first xs s l = Some (a, rest) \<Longrightarrow> length rest < length xs"
  by (induction xs) (auto split: if_splits)

lemma iopt_area_contig_next_shorter:
  assumes "iopt_area_contig_next iter = (iter', Some b)"
  shows "length (succs iter') < length (succs iter)"
proof -
  from assms obtain c rest where
    "iopt_area_iter_first (succs iter) c (last_iova iter) = Some (b, rest)"
    and "succs iter' = rest"
    by (auto simp: iopt_area_contig_next_def split: option.splits if_splits)
  then show ?thesis
    using iopt_area_iter_first_shorter by fastforce
qed

text \<open>
  The macro \<open>iopt_for_each_contig_area\<close>: run \<open>body\<close> on each Area of the walk. A body
  that returns an errno leaves the loop (the source's \<open>goto\<close>), with the iterator where
  it stood.
\<close>

function for_each_contig_area ::
  "(iopt_area_contig_iter \<Rightarrow> iopt_area \<Rightarrow> 's \<Rightarrow> errno option \<times> 's) \<Rightarrow>
   iopt_area_contig_iter \<times> iopt_area option \<Rightarrow> 's \<Rightarrow> iopt_area_contig_iter \<times> errno option \<times> 's" where
  "for_each_contig_area body (iter, None) s = (iter, None, s)"
| "for_each_contig_area body (iter, Some a) s =
     (case body iter a s of
        (Some e, s') \<Rightarrow> (iter, Some e, s')
      | (None, s') \<Rightarrow> for_each_contig_area body (iopt_area_contig_next iter) s')"
  by pat_completeness auto
termination
proof (relation "measure (\<lambda>(body, (iter, v), s). case v of None \<Rightarrow> 0 | Some _ \<Rightarrow> Suc (length (succs iter)))")
  show "wf (measure (\<lambda>(body :: iopt_area_contig_iter \<Rightarrow> iopt_area \<Rightarrow> 's \<Rightarrow> errno option \<times> 's,
      (iter, v), s). case v of None \<Rightarrow> 0 | Some _ \<Rightarrow> Suc (length (succs iter))))"
    by simp
next
  fix body :: "iopt_area_contig_iter \<Rightarrow> iopt_area \<Rightarrow> 's \<Rightarrow> errno option \<times> 's"
  fix iter a s x y
  obtain iter' v where n: "iopt_area_contig_next iter = (iter', v)"
    by (cases "iopt_area_contig_next iter")
  have "(case v of None \<Rightarrow> 0 | Some _ \<Rightarrow> Suc (length (succs iter'))) < Suc (length (succs iter))"
    using iopt_area_contig_next_shorter [of iter iter'] n by (cases v) auto
  then show "((body, iopt_area_contig_next iter, y), body, (iter, Some a), s)
      \<in> measure (\<lambda>(body, (iter, v), s). case v of None \<Rightarrow> 0 | Some _ \<Rightarrow> Suc (length (succs iter)))"
    by (simp add: n)
qed

section \<open>The Pages Store operations used by an access\<close>

text \<open>
  Modelled from the spec: \<open>iopt_area_add_access\<close> (\<open>pages.c\<close> is not part of the
  sources), the Pages Store's \<open>pin\<close> for an in-kernel accessor over the pages
  \<open>start_index .. last_index\<close>. It fails with the errno the backing memory gives
  (\<open>OutOfMemory\<close>, \<open>PermissionDenied\<close>, \<open>AddressFault\<close>), here the parameter
  \<open>fault\<close>, and then changes nothing; otherwise it records the access and returns the
  frame references in order.
\<close>

type_synonym pin_fault = "pages_access \<Rightarrow> uint \<Rightarrow> errno option"

definition page_frames :: "nat \<Rightarrow> ulong \<Rightarrow> ulong \<Rightarrow> (nat \<times> ulong) list" where
  "page_frames p start_index last_index =
     map (\<lambda>k. (p, start_index + of_nat k)) [0..<Suc (unat (last_index - start_index))]"

definition iopt_area_add_access ::
  "pin_fault \<Rightarrow> iopt_area \<Rightarrow> ulong \<Rightarrow> ulong \<Rightarrow> uint \<Rightarrow> pages_state \<Rightarrow>
   errno option \<times> (nat \<times> ulong) list \<times> pages_state" where
  "iopt_area_add_access fault a start_index last_index flags s =
     (case fault (pages a, start_index, last_index) flags of
        Some e \<Rightarrow> (Some e, [], s)
      | None \<Rightarrow>
          (None, page_frames (pages a) start_index last_index,
           s\<lparr>accesses := add_mset (pages a, start_index, last_index) (accesses s)\<rparr>))"

text \<open>
  Modelled from the spec: \<open>iopt_area_remove_access\<close>, the Pages Store's \<open>unpin\<close>. An
  unpin without a matching pin is a programming error: the assertion fires and nothing
  is removed.
\<close>

definition iopt_area_remove_access :: "iopt_area \<Rightarrow> ulong \<Rightarrow> ulong \<Rightarrow> pages_state \<Rightarrow> pages_state" where
  "iopt_area_remove_access a start_index last_index s =
     (if (pages a, start_index, last_index) \<in># accesses s
      then s\<lparr>accesses := accesses s - {#(pages a, start_index, last_index)#}\<rparr>
      else WARN_ON True s)"

text \<open>
  Modelled from the spec: \<open>iopt_pages_rw_access\<close>, the Pages Store's \<open>read_write\<close>. It
  copies \<open>len\<close> bytes between the buffer at \<open>data\<close> and the store at \<open>start_byte\<close>,
  and leaves no persistent pin. The buffer is the kernel memory by offset from the
  caller's pointer; \<open>off\<close> is how far \<open>data\<close> has advanced. A fault of the backing
  memory (the parameter \<open>fault\<close>) fails the call.
\<close>

type_synonym rw_fault = "nat \<Rightarrow> ulong \<Rightarrow> ulong \<Rightarrow> errno option"

definition iopt_pages_rw_access ::
  "rw_fault \<Rightarrow> nat \<Rightarrow> ulong \<Rightarrow> (nat \<Rightarrow> 8 word) \<Rightarrow> nat \<Rightarrow> ulong \<Rightarrow> uint \<Rightarrow> pages_state \<Rightarrow>
   errno option \<times> (nat \<Rightarrow> 8 word) \<times> pages_state" where
  "iopt_pages_rw_access fault p start_byte data off len flags s =
     (case fault p start_byte len of
        Some e \<Rightarrow> (Some e, data, s)
      | None \<Rightarrow>
          if flags AND IOMMUFD_ACCESS_RW_WRITE \<noteq> 0
          then (None, data,
                s\<lparr>mem := (\<lambda>(q, b). if q = p \<and> unat (b - start_byte) < unat len
                                    then data (off + unat (b - start_byte)) else mem s (q, b))\<rparr>)
          else (None,
                (\<lambda>k. if off \<le> k \<and> k < off + unat len
                      then mem s (p, start_byte + of_nat (k - off)) else data k),
                s))"

section \<open>The access interface of device.c\<close>

text \<open>\<open>iopt_area_contig_is_aligned\<close>; \<open>a\<close> is \<open>iter->area\<close>, which the loop guarantees.\<close>

definition iopt_area_contig_is_aligned :: "iopt_area_contig_iter \<Rightarrow> iopt_area \<Rightarrow> bool" where
  "iopt_area_contig_is_aligned iter a =
     (if iopt_area_start_byte a (cur_iova iter) mod PAGE_SIZE \<noteq> 0 then False
      else if \<not> iopt_area_contig_done iter \<and>
              iopt_area_start_byte a (iopt_area_last_iova a) mod PAGE_SIZE \<noteq> PAGE_SIZE - 1
      then False
      else True)"

definition check_area_prot :: "iopt_area \<Rightarrow> uint \<Rightarrow> bool" where
  "check_area_prot a flags =
     (if flags AND IOMMUFD_ACCESS_RW_WRITE \<noteq> 0 then iommu_prot a AND IOMMU_WRITE \<noteq> 0
      else iommu_prot a AND IOMMU_READ \<noteq> 0)"

text \<open>
  The body of the loops of \<open>iommufd_access_unpin_pages\<close> and of the \<open>err_remove\<close> path
  of \<open>iommufd_access_pin_pages\<close>.
\<close>

definition remove_access_body ::
  "ulong \<Rightarrow> iopt_area_contig_iter \<Rightarrow> iopt_area \<Rightarrow> pages_state \<Rightarrow> errno option \<times> pages_state" where
  "remove_access_body lst iter a s =
     (None, iopt_area_remove_access a
        (iopt_area_iova_to_index a (cur_iova iter))
        (iopt_area_iova_to_index a (min lst (iopt_area_last_iova a))) s)"

definition iommufd_access_unpin_pages ::
  "iommufd_access \<Rightarrow> io_pagetable \<Rightarrow> ulong \<Rightarrow> ulong \<Rightarrow> pages_state \<Rightarrow> pages_state" where
  "iommufd_access_unpin_pages access iopt iova len s =
     (if len = 0 then WARN_ON True s
      else case check_add_overflow iova (len - 1) of
        (True, lst) \<Rightarrow> WARN_ON True s
      | (False, lst) \<Rightarrow>
          (case for_each_contig_area (remove_access_body lst)
                  (iopt_area_contig_init iopt iova lst) s of
             (iter, rc, s') \<Rightarrow> WARN_ON (\<not> iopt_area_contig_done iter) s'))"

text \<open>The loop body of \<open>iommufd_access_pin_pages\<close>; the state carries \<open>out_pages\<close>.\<close>

definition pin_pages_body ::
  "pin_fault \<Rightarrow> uint \<Rightarrow> ulong \<Rightarrow> iopt_area_contig_iter \<Rightarrow> iopt_area \<Rightarrow>
   (nat \<times> ulong) list \<times> pages_state \<Rightarrow> errno option \<times> (nat \<times> ulong) list \<times> pages_state" where
  "pin_pages_body fault flags lst iter a = (\<lambda>(out_pages, s).
     (let last_index = iopt_area_iova_to_index a (min lst (iopt_area_last_iova a));
          index = iopt_area_iova_to_index a (cur_iova iter)
      in if prevent_access a \<or> \<not> iopt_area_contig_is_aligned iter a then (Some EINVAL, out_pages, s)
         else if \<not> check_area_prot a flags then (Some EPERM, out_pages, s)
         else (case iopt_area_add_access fault a index last_index flags s of
                 (Some e, ps, s') \<Rightarrow> (Some e, out_pages, s')
               | (None, ps, s') \<Rightarrow> (None, out_pages @ ps, s'))))"

text \<open>The \<open>err_remove\<close> path: unpin what the loop pinned before \<open>iter.cur_iova\<close>.\<close>

definition pin_pages_err_remove ::
  "io_pagetable \<Rightarrow> ulong \<Rightarrow> iopt_area_contig_iter \<Rightarrow> pages_state \<Rightarrow> pages_state" where
  "pin_pages_err_remove iopt iova iter s =
     (if iova < cur_iova iter
      then (case for_each_contig_area (remove_access_body (cur_iova iter - 1))
                    (iopt_area_contig_init iopt iova (cur_iova iter - 1)) s of
              (iter', rc, s') \<Rightarrow> s')
      else s)"

definition iommufd_access_pin_pages ::
  "bool \<Rightarrow> pin_fault \<Rightarrow> iommufd_access \<Rightarrow> io_pagetable \<Rightarrow> ulong \<Rightarrow> ulong \<Rightarrow> uint \<Rightarrow>
   pages_state \<Rightarrow> (errno + (nat \<times> ulong) list) \<times> pages_state" where
  "iommufd_access_pin_pages CONFIG_IOMMUFD_TEST fault access iopt iova len flags s =
     (if CONFIG_IOMMUFD_TEST \<and> (iova_alignment access \<noteq> PAGE_SIZE \<or> \<not> ops_unmap access)
      then (Inl EINVAL, WARN_ON True s)
      else if len = 0 then (Inl EINVAL, s)
      else case check_add_overflow iova (len - 1) of
        (True, lst) \<Rightarrow> (Inl EOVERFLOW, s)
      | (False, lst) \<Rightarrow>
          (case for_each_contig_area (pin_pages_body fault flags lst)
                  (iopt_area_contig_init iopt iova lst) ([], s) of
             (iter, Some e, out_pages, s') \<Rightarrow> (Inl e, pin_pages_err_remove iopt iova iter s')
           | (iter, None, out_pages, s') \<Rightarrow>
               if \<not> iopt_area_contig_done iter
               then (Inl ENOENT, pin_pages_err_remove iopt iova iter s')
               else (Inr out_pages, s')))"

text \<open>The loop body of \<open>iommufd_access_rw\<close>; the state carries the buffer and \<open>data\<close>.\<close>

definition access_rw_body ::
  "rw_fault \<Rightarrow> uint \<Rightarrow> ulong \<Rightarrow> iopt_area_contig_iter \<Rightarrow> iopt_area \<Rightarrow>
   (nat \<Rightarrow> 8 word) \<times> nat \<times> pages_state \<Rightarrow> errno option \<times> (nat \<Rightarrow> 8 word) \<times> nat \<times> pages_state" where
  "access_rw_body fault flags lst iter a = (\<lambda>(data, off, s).
     (let bytes = (min lst (iopt_area_last_iova a) - cur_iova iter) + 1
      in if prevent_access a then (Some EINVAL, data, off, s)
         else if \<not> check_area_prot a flags then (Some EPERM, data, off, s)
         else (case iopt_pages_rw_access fault (pages a)
                       (iopt_area_start_byte a (cur_iova iter)) data off bytes flags s of
                 (Some e, data', s') \<Rightarrow> (Some e, data', off, s')
               | (None, data', s') \<Rightarrow> (None, data', off + unat bytes, s'))))"

definition iommufd_access_rw ::
  "rw_fault \<Rightarrow> iommufd_access \<Rightarrow> io_pagetable \<Rightarrow> ulong \<Rightarrow> (nat \<Rightarrow> 8 word) \<Rightarrow> ulong \<Rightarrow> uint \<Rightarrow>
   pages_state \<Rightarrow> errno option \<times> (nat \<Rightarrow> 8 word) \<times> pages_state" where
  "iommufd_access_rw fault access iopt iova data len flags s =
     (if len = 0 then (Some EINVAL, data, s)
      else case check_add_overflow iova (len - 1) of
        (True, lst) \<Rightarrow> (Some EOVERFLOW, data, s)
      | (False, lst) \<Rightarrow>
          (case for_each_contig_area (access_rw_body fault flags lst)
                  (iopt_area_contig_init iopt iova lst) (data, 0, s) of
             (iter, Some e, data', off, s') \<Rightarrow> (Some e, data', s')
           | (iter, None, data', off, s') \<Rightarrow>
               if \<not> iopt_area_contig_done iter then (Some ENOENT, data', s')
               else (None, data', s')))"

section \<open>The walk of the iterator as a list\<close>

text \<open>
  The Areas that \<open>iopt_for_each_contig_area\<close> visits when no body leaves the loop, each
  with the iterator at that moment, and the iterator after the loop.
\<close>

function contig_run ::
  "iopt_area_contig_iter \<times> iopt_area option \<Rightarrow> (iopt_area_contig_iter \<times> iopt_area) list \<times> iopt_area_contig_iter" where
  "contig_run (iter, None) = ([], iter)"
| "contig_run (iter, Some a) =
     (case contig_run (iopt_area_contig_next iter) of (w, e) \<Rightarrow> ((iter, a) # w, e))"
  by pat_completeness auto
termination
proof (relation "measure (\<lambda>(iter, v). case v of None \<Rightarrow> 0 | Some _ \<Rightarrow> Suc (length (succs iter)))")
  show "wf (measure (\<lambda>(iter, v). case v of None \<Rightarrow> 0 | Some _ \<Rightarrow> Suc (length (succs iter))))"
    by simp
next
  fix iter :: iopt_area_contig_iter and a :: iopt_area
  obtain iter' v where n: "iopt_area_contig_next iter = (iter', v)"
    by (cases "iopt_area_contig_next iter")
  have "(case v of None \<Rightarrow> 0 | Some _ \<Rightarrow> Suc (length (succs iter'))) < Suc (length (succs iter))"
    using iopt_area_contig_next_shorter [of iter iter'] n by (cases v) auto
  then show "(iopt_area_contig_next iter, iter, Some a)
      \<in> measure (\<lambda>(iter, v). case v of None \<Rightarrow> 0 | Some _ \<Rightarrow> Suc (length (succs iter)))"
    by (simp add: n)
qed

fun walk_exec ::
  "(iopt_area_contig_iter \<Rightarrow> iopt_area \<Rightarrow> 's \<Rightarrow> errno option \<times> 's) \<Rightarrow>
   (iopt_area_contig_iter \<times> iopt_area) list \<Rightarrow> iopt_area_contig_iter \<Rightarrow> 's \<Rightarrow>
   iopt_area_contig_iter \<times> errno option \<times> 's" where
  "walk_exec body [] e s = (e, None, s)"
| "walk_exec body ((iter, a) # w) e s =
     (case body iter a s of
        (Some err, s') \<Rightarrow> (iter, Some err, s')
      | (None, s') \<Rightarrow> walk_exec body w e s')"

definition walk_ord :: "ulong \<Rightarrow> iopt_area_contig_iter \<times> iopt_area \<Rightarrow> iopt_area_contig_iter \<times> iopt_area \<Rightarrow> bool" where
  "walk_ord l = (\<lambda>(i, x) (j, y). node_last x < cur_iova j \<and> node_last x < l)"

definition walk_elem :: "ulong \<Rightarrow> ulong \<Rightarrow> iopt_area_contig_iter \<times> iopt_area \<Rightarrow> bool" where
  "walk_elem c l = (\<lambda>(j, y). area j = Some y \<and> last_iova j = l \<and> c \<le> cur_iova j \<and>
     cur_iova j \<le> node_last y)"

definition relast :: "ulong \<Rightarrow> iopt_area_contig_iter \<times> iopt_area \<Rightarrow> iopt_area_contig_iter \<times> iopt_area" where
  "relast l = (\<lambda>(i, x). (i\<lparr>last_iova := l\<rparr>, x))"

definition walk_key :: "ulong \<Rightarrow> iopt_area_contig_iter \<times> iopt_area \<Rightarrow> pages_access" where
  "walk_key l = (\<lambda>(i, x). (pages x, iopt_area_iova_to_index x (cur_iova i),
     iopt_area_iova_to_index x (min l (iopt_area_last_iova x))))"

text \<open>
  The invariant of the Area index: the Areas are in IOVA order, do not overlap, and each
  has a nonempty inclusive range.
\<close>

definition iopt_wf :: "io_pagetable \<Rightarrow> bool" where
  "iopt_wf iopt \<longleftrightarrow>
     sorted_wrt (\<lambda>a b. node_last a < node_start b) (area_itree iopt) \<and>
     (\<forall>a\<in>set (area_itree iopt). node_start a \<le> node_last a)"

text \<open>
  The outcome of the loops in terms of the walk: the check that each loop body makes on
  an Area, and the first errno that the checks give along the walk.
\<close>

fun first_error :: "('a \<Rightarrow> errno option) \<Rightarrow> 'a list \<Rightarrow> errno option" where
  "first_error chk [] = None"
| "first_error chk (p # ps) = (case chk p of Some err \<Rightarrow> Some err | None \<Rightarrow> first_error chk ps)"

definition pin_check :: "pin_fault \<Rightarrow> uint \<Rightarrow> ulong \<Rightarrow> iopt_area_contig_iter \<times> iopt_area \<Rightarrow> errno option" where
  "pin_check fault flags l = (\<lambda>(i, x).
     if prevent_access x \<or> \<not> iopt_area_contig_is_aligned i x then Some EINVAL
     else if \<not> check_area_prot x flags then Some EPERM
     else fault (walk_key l (i, x)) flags)"

definition rw_check :: "rw_fault \<Rightarrow> uint \<Rightarrow> ulong \<Rightarrow> iopt_area_contig_iter \<times> iopt_area \<Rightarrow> errno option" where
  "rw_check fault flags l = (\<lambda>(i, x).
     if prevent_access x then Some EINVAL
     else if \<not> check_area_prot x flags then Some EPERM
     else fault (pages x) (iopt_area_start_byte x (cur_iova i))
            ((min l (iopt_area_last_iova x) - cur_iova i) + 1))"

definition walk_frames :: "ulong \<Rightarrow> iopt_area_contig_iter \<times> iopt_area \<Rightarrow> (nat \<times> ulong) list" where
  "walk_frames l p = (case walk_key l p of (st, first_index, last_index) \<Rightarrow> page_frames st first_index last_index)"

text \<open>An IOVA range is covered when each of its addresses lies in an Area of the table.\<close>

definition range_covered :: "io_pagetable \<Rightarrow> ulong \<Rightarrow> ulong \<Rightarrow> bool" where
  "range_covered iopt iova l \<longleftrightarrow>
     (\<forall>x. iova \<le> x \<and> x \<le> l \<longrightarrow> (\<exists>a\<in>set (area_itree iopt). node_start a \<le> x \<and> x \<le> node_last a))"

section \<open>Unmap notification\<close>

text \<open>
  \<open>iommufd_access_notify_unmap\<close>: the loop over \<open>iopt.access_list\<close>. The parameter
  \<open>unmap\<close> stands for the drivers' callbacks \<open>access->ops->unmap\<close>, which act on a
  state of the caller's choice; \<open>obj_lockable\<close> is the outcome of \<open>iommufd_lock_obj\<close>
  on the access, which fails for an object that is being destroyed.
\<close>

fun notify_unmap_loop ::
  "(iommufd_access \<Rightarrow> nat \<Rightarrow> ulong \<Rightarrow> ulong \<Rightarrow> 's \<Rightarrow> 's) \<Rightarrow> iommufd_access list \<Rightarrow>
   ulong \<Rightarrow> ulong \<Rightarrow> 's \<Rightarrow> 's" where
  "notify_unmap_loop unmap [] iova len s = s"
| "notify_unmap_loop unmap (access # rest) iova len s =
     (if \<not> obj_lockable access then notify_unmap_loop unmap rest iova len s
      else notify_unmap_loop unmap rest iova len (unmap access (access_data access) iova len s))"

definition iommufd_access_notify_unmap ::
  "(iommufd_access \<Rightarrow> nat \<Rightarrow> ulong \<Rightarrow> ulong \<Rightarrow> 's \<Rightarrow> 's) \<Rightarrow> io_pagetable \<Rightarrow>
   ulong \<Rightarrow> ulong \<Rightarrow> 's \<Rightarrow> 's" where
  "iommufd_access_notify_unmap unmap iopt iova len s =
     notify_unmap_loop unmap (access_list iopt) iova len s"

section \<open>Hardware page tables, groups and devices\<close>

text \<open>
  The objects of \<open>device.c\<close> and \<open>hw_pagetable.c\<close>. The reference counts of the
  object framework (\<open>obj.users\<close>) are outside the model. \<open>hwpt_lockable\<close> is the
  outcome of \<open>iommufd_lock_obj\<close> on the object, and \<open>hwpt_item_linked\<close> is whether
  \<open>hwpt_item\<close> is on a list.
\<close>

record iommufd_hw_pagetable =
  hwpt_domain :: nat
  hwpt_parent :: "nat option"
  enforce_cache_coherency :: bool
  msi_cookie :: bool
  auto_domain :: bool
  hwpt_lockable :: bool
  hwpt_item_linked :: bool

record iommufd_group =
  group_hwpt :: "nat option"
  device_list :: "nat list"
  sw_msi_start :: ulong

record iommufd_device =
  idev_id :: nat
  dev :: nat
  dev_enforce_cache_coherency :: bool

definition PHYS_ADDR_MAX :: ulong where
  "PHYS_ADDR_MAX = - 1"

text \<open>
  The state that attach and detach work on: the I/O page table of the IOAS, its
  \<open>hwpt_list\<close> (objects by id), the group of the device, and, for each
  \<open>iommu_domain\<close>, the IOVA ranges that are mapped in it. \<open>kwarned\<close> records a
  \<open>WARN_ON\<close>.
\<close>

record kstate =
  ioas_iopt :: io_pagetable
  hwpt_list :: "(nat \<times> iommufd_hw_pagetable) list"
  igroup :: iommufd_group
  domain_entries :: "nat \<Rightarrow> (ulong \<times> ulong) multiset"
  kwarned :: bool

datatype domain_type = IOMMU_DOMAIN_UNMANAGED | IOMMU_DOMAIN_NESTED | IOMMU_DOMAIN_OTHER

text \<open>
  What the IOMMU core, the drivers and the object framework answer; none of them is
  part of the sources, so each is a parameter:
  \<^item> \<open>enforce_cc_op\<close>: \<open>domain->ops->enforce_cache_coherency\<close>, \<open>None\<close> when the op is absent;
  \<^item> \<open>resv_regions\<close>: the reserved regions of a device, each with whether it is the software MSI window;
  \<^item> \<open>get_msi_cookie\<close>: \<open>iommu_get_msi_cookie\<close>;
  \<^item> \<open>attach_group\<close>: \<open>iommu_attach_group\<close>;
  \<^item> \<open>fill_fault\<close>: whether \<open>fill_domain\<close> fails on an Area;
  \<^item> \<open>domain_incompatible\<close>: whether the minimum page size of a domain exceeds what an Area supports;
  \<^item> \<open>object_alloc\<close>: \<open>iommufd_object_alloc\<close>, the new id or an errno;
  \<^item> \<open>has_domain_alloc_user\<close>, \<open>domain_alloc_user\<close>, \<open>domain_alloc\<close>: the driver's domain allocators;
  \<^item> \<open>domain_type_of\<close>: \<open>domain->type\<close>.
\<close>

record env =
  enforce_cc_op :: "nat \<Rightarrow> bool option"
  resv_regions :: "nat \<Rightarrow> (ulong \<times> ulong \<times> bool) list"
  get_msi_cookie :: "nat \<Rightarrow> ulong \<Rightarrow> errno option"
  attach_group :: "nat \<Rightarrow> errno option"
  fill_fault :: "nat \<Rightarrow> iopt_area \<Rightarrow> errno option"
  domain_incompatible :: "nat \<Rightarrow> iopt_area \<Rightarrow> bool"
  object_alloc :: "errno + nat"
  has_domain_alloc_user :: bool
  domain_alloc_user :: "nat option"
  domain_alloc :: "nat option"
  domain_type_of :: "nat \<Rightarrow> domain_type"

section \<open>Reserved regions and domains of the I/O page table\<close>

text \<open>
  Modelled from the spec: \<open>iopt_remove_reserved_iova\<close> (\<open>io_pagetable.c\<close> is not part
  of the sources), which removes the reserved regions of one owner.
\<close>

definition iopt_remove_reserved_iova :: "io_pagetable \<Rightarrow> nat \<Rightarrow> io_pagetable" where
  "iopt_remove_reserved_iova t owner =
     t\<lparr>reserved_itree := filter (\<lambda>(start, lst, ow). ow \<noteq> owner) (reserved_itree t)\<rparr>"

text \<open>
  Modelled from the spec: \<open>iopt_table_enforce_dev_resv_regions\<close>. Each reserved region
  of the device is added to the table for the device as owner; a region that an Area
  occupies fails with \<open>Busy\<close>, and the regions of the device are removed again. The
  start of the software MSI window is reported through \<open>sw_msi_start\<close>.
\<close>

fun iopt_reserve_regions ::
  "(ulong \<times> ulong \<times> bool) list \<Rightarrow> nat \<Rightarrow> io_pagetable \<Rightarrow> ulong \<Rightarrow> errno option \<times> io_pagetable \<times> ulong" where
  "iopt_reserve_regions [] owner t msi = (None, t, msi)"
| "iopt_reserve_regions ((start, lst, is_sw_msi) # rs) owner t msi =
     (if \<exists>a\<in>set (area_itree t). node_start a \<le> lst \<and> start \<le> node_last a
      then (Some EBUSY, t, if is_sw_msi then start else msi)
      else iopt_reserve_regions rs owner
             (t\<lparr>reserved_itree := reserved_itree t @ [(start, lst, owner)]\<rparr>)
             (if is_sw_msi then start else msi))"

definition iopt_table_enforce_dev_resv_regions ::
  "env \<Rightarrow> io_pagetable \<Rightarrow> nat \<Rightarrow> ulong \<Rightarrow> errno option \<times> io_pagetable \<times> ulong" where
  "iopt_table_enforce_dev_resv_regions e t d msi =
     (case iopt_reserve_regions (resv_regions e d) d t msi of
        (Some err, t', msi') \<Rightarrow> (Some err, iopt_remove_reserved_iova t' d, msi')
      | (None, t', msi') \<Rightarrow> (None, t', msi'))"

text \<open>
  Modelled from the spec: \<open>fill_domain\<close> and \<open>unfill_domain\<close> of the Pages Store, seen
  from the domain: the entries of the IOVA range of an Area are programmed into the
  domain, or removed from it.
\<close>

definition fill_domain :: "env \<Rightarrow> nat \<Rightarrow> iopt_area \<Rightarrow> kstate \<Rightarrow> errno option \<times> kstate" where
  "fill_domain e d a s =
     (case fill_fault e d a of
        Some err \<Rightarrow> (Some err, s)
      | None \<Rightarrow>
          (None, s\<lparr>domain_entries := (domain_entries s)
                     (d := add_mset (node_start a, node_last a) (domain_entries s d))\<rparr>))"

definition unfill_domain :: "nat \<Rightarrow> iopt_area \<Rightarrow> kstate \<Rightarrow> kstate" where
  "unfill_domain d a s =
     s\<lparr>domain_entries := (domain_entries s)
          (d := domain_entries s d - {#(node_start a, node_last a)#})\<rparr>"

text \<open>
  Modelled from the spec: \<open>iopt_table_add_domain\<close> (Attach domain). The alignment
  requirement of the domain is checked against the table first (\<open>Incompatible\<close>). Then
  every Area is filled in IOVA order; a failure unfills the Areas already filled before
  the error is reported. On success the domain joins the attached set.
\<close>

fun iopt_fill_areas ::
  "env \<Rightarrow> nat \<Rightarrow> iopt_area list \<Rightarrow> iopt_area list \<Rightarrow> kstate \<Rightarrow>
   errno option \<times> iopt_area list \<times> kstate" where
  "iopt_fill_areas e d [] filled s = (None, filled, s)"
| "iopt_fill_areas e d (a # as) filled s =
     (case fill_domain e d a s of
        (Some err, s') \<Rightarrow> (Some err, filled, s')
      | (None, s') \<Rightarrow> iopt_fill_areas e d as (filled @ [a]) s')"

definition iopt_table_add_domain :: "env \<Rightarrow> nat \<Rightarrow> kstate \<Rightarrow> errno option \<times> kstate" where
  "iopt_table_add_domain e d s =
     (if \<exists>a\<in>set (area_itree (ioas_iopt s)). domain_incompatible e d a then (Some EINVAL, s)
      else case iopt_fill_areas e d (area_itree (ioas_iopt s)) [] s of
        (Some err, filled, s') \<Rightarrow> (Some err, fold (unfill_domain d) filled s')
      | (None, filled, s') \<Rightarrow> (None, s'\<lparr>ioas_iopt := (ioas_iopt s')\<lparr>domains := domains (ioas_iopt s') @ [d]\<rparr>\<rparr>))"

text \<open>Modelled from the spec: \<open>iopt_table_remove_domain\<close> (Detach domain).\<close>

definition iopt_table_remove_domain :: "nat \<Rightarrow> kstate \<Rightarrow> kstate" where
  "iopt_table_remove_domain d s =
     (fold (unfill_domain d) (area_itree (ioas_iopt s)) s)
       \<lparr>ioas_iopt := (ioas_iopt s)\<lparr>domains := remove1 d (domains (ioas_iopt s))\<rparr>\<rparr>"

section \<open>Attach and detach of device.c and hw_pagetable.c\<close>

text \<open>\<open>iommufd_hw_pagetable_enforce_cc\<close>.\<close>

definition iommufd_hw_pagetable_enforce_cc ::
  "env \<Rightarrow> iommufd_hw_pagetable \<Rightarrow> errno option \<times> iommufd_hw_pagetable" where
  "iommufd_hw_pagetable_enforce_cc e hwpt =
     (if enforce_cache_coherency hwpt then (None, hwpt)
      else
        (let hwpt' = (case enforce_cc_op e (hwpt_domain hwpt) of
                        Some b \<Rightarrow> hwpt\<lparr>enforce_cache_coherency := b\<rparr>
                      | None \<Rightarrow> hwpt)
         in if \<not> enforce_cache_coherency hwpt' then (Some EINVAL, hwpt') else (None, hwpt')))"

text \<open>\<open>iommufd_group_setup_msi\<close>.\<close>

definition iommufd_group_setup_msi ::
  "env \<Rightarrow> iommufd_group \<Rightarrow> iommufd_hw_pagetable \<Rightarrow> errno option \<times> iommufd_hw_pagetable" where
  "iommufd_group_setup_msi e g hwpt =
     (if sw_msi_start g \<noteq> PHYS_ADDR_MAX \<and> \<not> msi_cookie hwpt
      then (case get_msi_cookie e (hwpt_domain hwpt) (sw_msi_start g) of
              Some err \<Rightarrow> (Some err, hwpt)
            | None \<Rightarrow> (None, hwpt\<lparr>msi_cookie := True\<rparr>))
      else (None, hwpt))"

text \<open>
  \<open>iommufd_hw_pagetable_attach\<close>. \<open>hid\<close> is the identity of \<open>hwpt\<close>, which the function
  compares with \<open>igroup->hwpt\<close>. The labels \<open>err_unresv\<close> and \<open>err_unlock\<close> are the
  two error exits.
\<close>

definition iommufd_hw_pagetable_attach ::
  "env \<Rightarrow> nat \<Rightarrow> iommufd_hw_pagetable \<Rightarrow> iommufd_device \<Rightarrow> kstate \<Rightarrow>
   errno option \<times> iommufd_hw_pagetable \<times> kstate" where
  "iommufd_hw_pagetable_attach e hid hwpt idev s =
     (if group_hwpt (igroup s) \<noteq> None \<and> group_hwpt (igroup s) \<noteq> Some hid
      then (Some EINVAL, hwpt, s)
      else
        (case (if dev_enforce_cache_coherency idev then iommufd_hw_pagetable_enforce_cc e hwpt
               else (None, hwpt)) of
           (Some err, hwpt1) \<Rightarrow> (Some err, hwpt1, s)
         | (None, hwpt1) \<Rightarrow>
             (case iopt_table_enforce_dev_resv_regions e (ioas_iopt s) (dev idev)
                     (sw_msi_start (igroup s)) of
                (Some err, t1, msi) \<Rightarrow>
                  (Some err, hwpt1, s\<lparr>ioas_iopt := t1, igroup := (igroup s)\<lparr>sw_msi_start := msi\<rparr>\<rparr>)
              | (None, t1, msi) \<Rightarrow>
                  (let s1 = s\<lparr>ioas_iopt := t1, igroup := (igroup s)\<lparr>sw_msi_start := msi\<rparr>\<rparr>
                   in if device_list (igroup s1) = []
                      then
                        (case iommufd_group_setup_msi e (igroup s1) hwpt1 of
                           (Some err, hwpt2) \<Rightarrow>
                             (Some err, hwpt2,
                              s1\<lparr>ioas_iopt := iopt_remove_reserved_iova (ioas_iopt s1) (dev idev)\<rparr>)
                         | (None, hwpt2) \<Rightarrow>
                             (case attach_group e (hwpt_domain hwpt2) of
                                Some err \<Rightarrow>
                                  (Some err, hwpt2,
                                   s1\<lparr>ioas_iopt := iopt_remove_reserved_iova (ioas_iopt s1) (dev idev)\<rparr>)
                              | None \<Rightarrow>
                                  (None, hwpt2,
                                   s1\<lparr>igroup := (igroup s1)
                                        \<lparr>group_hwpt := Some hid,
                                         device_list := device_list (igroup s1) @ [idev_id idev]\<rparr>\<rparr>)))
                      else
                        (None, hwpt1,
                         s1\<lparr>igroup := (igroup s1)
                              \<lparr>device_list := device_list (igroup s1) @ [idev_id idev]\<rparr>\<rparr>)))))"

text \<open>
  \<open>iommufd_hw_pagetable_detach\<close>: the device leaves the group's list, the last one
  detaches the group, and the reserved regions of the device are removed.
\<close>

definition iommufd_hw_pagetable_detach :: "iommufd_device \<Rightarrow> kstate \<Rightarrow> kstate" where
  "iommufd_hw_pagetable_detach idev s =
     (let dl = remove1 (idev_id idev) (device_list (igroup s));
          g = (if dl = [] then (igroup s)\<lparr>device_list := dl, group_hwpt := None\<rparr>
               else (igroup s)\<lparr>device_list := dl\<rparr>)
      in s\<lparr>igroup := g, ioas_iopt := iopt_remove_reserved_iova (ioas_iopt s) (dev idev)\<rparr>)"

text \<open>
  \<open>iommufd_hw_pagetable_link_ioas\<close>: only a hardware page table without a parent is
  linked to the IOAS.
\<close>

definition iommufd_hw_pagetable_link_ioas ::
  "env \<Rightarrow> nat \<Rightarrow> iommufd_hw_pagetable \<Rightarrow> kstate \<Rightarrow>
   errno option \<times> iommufd_hw_pagetable \<times> kstate" where
  "iommufd_hw_pagetable_link_ioas e hid hwpt s =
     (if hwpt_parent hwpt \<noteq> None then (None, hwpt, s)
      else case iopt_table_add_domain e (hwpt_domain hwpt) s of
        (Some err, s') \<Rightarrow> (Some err, hwpt, s')
      | (None, s') \<Rightarrow>
          (None, hwpt\<lparr>hwpt_item_linked := True\<rparr>,
           s'\<lparr>hwpt_list := hwpt_list s' @ [(hid, hwpt\<lparr>hwpt_item_linked := True\<rparr>)]\<rparr>))"

text \<open>
  \<open>iommufd_hw_pagetable_abort\<close> followed by \<open>iommufd_hw_pagetable_destroy\<close>, which
  \<open>iommufd_object_abort_and_destroy\<close> runs: a linked hardware page table leaves
  \<open>hwpt_list\<close> and its domain leaves the table.
\<close>

definition iommufd_hw_pagetable_abort :: "nat \<Rightarrow> iommufd_hw_pagetable \<Rightarrow> kstate \<Rightarrow> kstate" where
  "iommufd_hw_pagetable_abort hid hwpt s =
     (if hwpt_item_linked hwpt
      then iopt_table_remove_domain (hwpt_domain hwpt)
             (s\<lparr>hwpt_list := filter (\<lambda>(i, h). i \<noteq> hid) (hwpt_list s)\<rparr>)
      else s)"

text \<open>
  \<open>iommufd_hw_pagetable_alloc\<close>. The result is the new object, with its id, or an
  errno; \<open>out_detach\<close> and \<open>out_abort\<close> are the two error exits.
\<close>

definition iommufd_hw_pagetable_alloc ::
  "env \<Rightarrow> iommufd_device \<Rightarrow> (nat \<times> iommufd_hw_pagetable) option \<Rightarrow> bool \<Rightarrow> bool \<Rightarrow> kstate \<Rightarrow>
   (errno + nat \<times> iommufd_hw_pagetable) \<times> kstate" where
  "iommufd_hw_pagetable_alloc e idev parent user_data immediate_attach s =
     (if (user_data \<or> parent \<noteq> None) \<and> \<not> has_domain_alloc_user e then (Inl EOPNOTSUPP, s)
      else case object_alloc e of
        Inl err \<Rightarrow> (Inl err, s)
      | Inr hid \<Rightarrow>
          (case (if has_domain_alloc_user e then domain_alloc_user e else domain_alloc e) of
             None \<Rightarrow> (Inl ENOMEM, s)
           | Some d \<Rightarrow>
               (let hwpt = \<lparr>hwpt_domain = d, hwpt_parent = map_option fst parent,
                            enforce_cache_coherency = False, msi_cookie = False,
                            auto_domain = False, hwpt_lockable = False,
                            hwpt_item_linked = False\<rparr>
                in if (parent \<noteq> None \<and> domain_type_of e d \<noteq> IOMMU_DOMAIN_NESTED) \<or>
                      (parent = None \<and> domain_type_of e d \<noteq> IOMMU_DOMAIN_UNMANAGED)
                   then (Inl EINVAL, iommufd_hw_pagetable_abort hid hwpt (s\<lparr>kwarned := True\<rparr>))
                   else
                     (case (if dev_enforce_cache_coherency idev
                            then iommufd_hw_pagetable_enforce_cc e hwpt else (None, hwpt)) of
                        (Some err, hwpt1) \<Rightarrow>
                          (Inl err, iommufd_hw_pagetable_abort hid hwpt1 (s\<lparr>kwarned := True\<rparr>))
                      | (None, hwpt1) \<Rightarrow>
                          (case (if immediate_attach
                                 then iommufd_hw_pagetable_attach e hid hwpt1 idev s
                                 else (None, hwpt1, s)) of
                             (Some err, hwpt2, s1) \<Rightarrow>
                               (Inl err, iommufd_hw_pagetable_abort hid hwpt2 s1)
                           | (None, hwpt2, s1) \<Rightarrow>
                               (case iommufd_hw_pagetable_link_ioas e hid hwpt2 s1 of
                                  (Some err, hwpt3, s2) \<Rightarrow>
                                    (Inl err,
                                     iommufd_hw_pagetable_abort hid hwpt3
                                       (if immediate_attach
                                        then iommufd_hw_pagetable_detach idev s2 else s2))
                                | (None, hwpt3, s2) \<Rightarrow> (Inr (hid, hwpt3), s2)))))))"

text \<open>
  The loop of \<open>iommufd_device_auto_get_domain\<close> over \<open>ioas->hwpt_list\<close>. It returns
  the list with the objects as the attach attempts left them and, when a candidate
  ended the loop, the code of its attach and its id (\<open>*pt_id\<close>).
\<close>

fun auto_get_domain_loop ::
  "env \<Rightarrow> iommufd_device \<Rightarrow> (nat \<times> iommufd_hw_pagetable) list \<Rightarrow> kstate \<Rightarrow>
   (errno option \<times> nat) option \<times> (nat \<times> iommufd_hw_pagetable) list \<times> kstate" where
  "auto_get_domain_loop e idev [] s = (None, [], s)"
| "auto_get_domain_loop e idev ((hid, hwpt) # rest) s =
     (if \<not> auto_domain hwpt then
        (case auto_get_domain_loop e idev rest s of (r, rest', s') \<Rightarrow> (r, (hid, hwpt) # rest', s'))
      else if \<not> hwpt_lockable hwpt then
        (case auto_get_domain_loop e idev rest s of (r, rest', s') \<Rightarrow> (r, (hid, hwpt) # rest', s'))
      else
        (case iommufd_hw_pagetable_attach e hid hwpt idev s of
           (rc, hwpt', s1) \<Rightarrow>
             if rc = Some EINVAL then
               (case auto_get_domain_loop e idev rest s1 of
                  (r, rest', s') \<Rightarrow> (r, (hid, hwpt') # rest', s'))
             else (Some (rc, hid), (hid, hwpt') # rest, s1)))"

text \<open>
  \<open>iommufd_device_auto_get_domain\<close>: the code returned and \<open>*pt_id\<close> when it is set.
  A new hardware page table is marked \<open>auto_domain\<close> and published.
\<close>

definition iommufd_device_auto_get_domain ::
  "env \<Rightarrow> iommufd_device \<Rightarrow> kstate \<Rightarrow> errno option \<times> nat option \<times> kstate" where
  "iommufd_device_auto_get_domain e idev s =
     (case auto_get_domain_loop e idev (hwpt_list s) s of
        (Some (rc, hid), l', s1) \<Rightarrow> (rc, Some hid, s1\<lparr>hwpt_list := l'\<rparr>)
      | (None, l', s1) \<Rightarrow>
          (case iommufd_hw_pagetable_alloc e idev None False True (s1\<lparr>hwpt_list := l'\<rparr>) of
             (Inl err, s2) \<Rightarrow> (Some err, None, s2)
           | (Inr (hid, hwpt), s2) \<Rightarrow>
               (None, Some hid,
                s2\<lparr>hwpt_list := map (\<lambda>(i, h). if i = hid
                      then (i, h\<lparr>auto_domain := True, hwpt_lockable := True\<rparr>) else (i, h))
                    (hwpt_list s2)\<rparr>)))"

text \<open>
  What a failed attach may leave of a state \<open>s\<close>: the table is as it was, or as it
  was without the reserved regions of the device \<open>d\<close>; \<open>hwpt_list\<close>, the entries of
  every domain and the binding of the group are as they were.
\<close>

definition same_table :: "nat \<Rightarrow> kstate \<Rightarrow> kstate \<Rightarrow> bool" where
  "same_table d s s' \<longleftrightarrow>
     (ioas_iopt s' = ioas_iopt s \<or> ioas_iopt s' = iopt_remove_reserved_iova (ioas_iopt s) d) \<and>
     hwpt_list s' = hwpt_list s \<and> domain_entries s' = domain_entries s \<and>
     device_list (igroup s') = device_list (igroup s) \<and>
     group_hwpt (igroup s') = group_hwpt (igroup s)"

text \<open>
  When every step of \<open>iommufd_hw_pagetable_alloc\<close> with immediate attach succeeds for
  a device in a state: the object framework gives the id \<open>nid\<close> and the driver the
  domain \<open>d\<close>, of type \<open>IOMMU_DOMAIN_UNMANAGED\<close>; the domain enforces cache coherency
  when the device needs it; the group is not bound; no reserved region of the device
  meets an Area; the MSI cookie and \<open>iommu_attach_group\<close> succeed; and every Area can
  be filled into the domain.
\<close>

definition new_domain_ok :: "env \<Rightarrow> iommufd_device \<Rightarrow> kstate \<Rightarrow> nat \<Rightarrow> nat \<Rightarrow> bool" where
  "new_domain_ok e idev s nid d \<longleftrightarrow>
     object_alloc e = Inr nid \<and>
     (if has_domain_alloc_user e then domain_alloc_user e else domain_alloc e) = Some d \<and>
     domain_type_of e d = IOMMU_DOMAIN_UNMANAGED \<and>
     (dev_enforce_cache_coherency idev \<longrightarrow> enforce_cc_op e d = Some True) \<and>
     group_hwpt (igroup s) = None \<and> device_list (igroup s) = [] \<and>
     (\<forall>(start, lst, m)\<in>set (resv_regions e (dev idev)). \<forall>a\<in>set (area_itree (ioas_iopt s)).
         \<not> (node_start a \<le> lst \<and> start \<le> node_last a)) \<and>
     (\<forall>base. get_msi_cookie e d base = None) \<and>
     attach_group e d = None \<and>
     (\<forall>a\<in>set (area_itree (ioas_iopt s)). \<not> domain_incompatible e d a \<and> fill_fault e d a = None)"

section \<open>Example tables\<close>

definition ex_area1 :: iopt_area where
  "ex_area1 = \<lparr>node_start = 0x1000, node_last = 0x1fff, pages = 0, store_offset = 0,
     iommu_prot = 3, prevent_access = False\<rparr>"

definition ex_area2 :: iopt_area where
  "ex_area2 = \<lparr>node_start = 0x2000, node_last = 0x2fff, pages = 1, store_offset = 0,
     iommu_prot = 1, prevent_access = False\<rparr>"

definition ex_area3 :: iopt_area where
  "ex_area3 = \<lparr>node_start = 0x3000, node_last = 0x3fff, pages = 0, store_offset = 0x1000,
     iommu_prot = 3, prevent_access = True\<rparr>"

definition ex_iopt :: io_pagetable where
  "ex_iopt = \<lparr>area_itree = [ex_area1, ex_area2], reserved_itree = [], domains = [],
     access_list = []\<rparr>"

definition ex_iopt_draining :: io_pagetable where
  "ex_iopt_draining = \<lparr>area_itree = [ex_area1, ex_area2, ex_area3], reserved_itree = [],
     domains = [], access_list = []\<rparr>"

definition ex_area2_draining :: iopt_area where
  "ex_area2_draining = ex_area2\<lparr>iommu_prot := 3, prevent_access := True\<rparr>"

definition ex_iopt_teardown :: io_pagetable where
  "ex_iopt_teardown = \<lparr>area_itree = [ex_area1, ex_area2_draining], reserved_itree = [],
     domains = [], access_list = []\<rparr>"

definition ex_state :: pages_state where
  "ex_state = \<lparr>accesses = {#}, mem = (\<lambda>_. 0), warned = False\<rparr>"

definition ex_access :: iommufd_access where
  "ex_access = \<lparr>access_data = 0, iova_alignment = 4096, ops_unmap = True, obj_lockable = True\<rparr>"

definition no_pin_fault :: pin_fault where
  "no_pin_fault = (\<lambda>k flags. None)"

definition no_rw_fault :: rw_fault where
  "no_rw_fault = (\<lambda>p start_byte len. None)"

definition ex_env :: env where
  "ex_env = \<lparr>enforce_cc_op = (\<lambda>d. if d = 1 then Some False else Some True),
     resv_regions = (\<lambda>d. [(0xfee00000, 0xfeefffff, True)]),
     get_msi_cookie = (\<lambda>d base. None),
     attach_group = (\<lambda>d. None),
     fill_fault = (\<lambda>d a. if node_start a = 0x2000 then Some ENOMEM else None),
     domain_incompatible = (\<lambda>d a. False),
     object_alloc = Inr 9,
     has_domain_alloc_user = False,
     domain_alloc_user = None,
     domain_alloc = Some 7,
     domain_type_of = (\<lambda>d. IOMMU_DOMAIN_UNMANAGED)\<rparr>"

definition ex_env_nodev :: env where
  "ex_env_nodev = ex_env\<lparr>attach_group := (\<lambda>d. Some ENODEV)\<rparr>"

definition ex_env_new :: env where
  "ex_env_new = ex_env\<lparr>enforce_cc_op := (\<lambda>d. if d = 7 then Some True else Some False),
     fill_fault := (\<lambda>d a. None)\<rparr>"

definition ex_hwpt_new :: iommufd_hw_pagetable where
  "ex_hwpt_new = \<lparr>hwpt_domain = 7, hwpt_parent = None, enforce_cache_coherency = False,
     msi_cookie = False, auto_domain = False, hwpt_lockable = False, hwpt_item_linked = False\<rparr>"

definition ex_idev :: iommufd_device where
  "ex_idev = \<lparr>idev_id = 5, dev = 3, dev_enforce_cache_coherency = True\<rparr>"

definition ex_hwpt1 :: iommufd_hw_pagetable where
  "ex_hwpt1 = \<lparr>hwpt_domain = 1, hwpt_parent = None, enforce_cache_coherency = False,
     msi_cookie = False, auto_domain = True, hwpt_lockable = True, hwpt_item_linked = True\<rparr>"

definition ex_hwpt2 :: iommufd_hw_pagetable where
  "ex_hwpt2 = \<lparr>hwpt_domain = 2, hwpt_parent = None, enforce_cache_coherency = False,
     msi_cookie = False, auto_domain = True, hwpt_lockable = True, hwpt_item_linked = True\<rparr>"

definition ex_kstate :: kstate where
  "ex_kstate = \<lparr>ioas_iopt = ex_iopt, hwpt_list = [(1, ex_hwpt1), (2, ex_hwpt2)],
     igroup = \<lparr>group_hwpt = None, device_list = [], sw_msi_start = PHYS_ADDR_MAX\<rparr>,
     domain_entries = (\<lambda>d. if d = 1 \<or> d = 2 then {#(0x1000, 0x1fff), (0x2000, 0x2fff)#} else {#}),
     kwarned = False\<rparr>"

definition ex_kstate_bound :: kstate where
  "ex_kstate_bound = ex_kstate\<lparr>igroup := \<lparr>group_hwpt = Some 2, device_list = [6],
     sw_msi_start = PHYS_ADDR_MAX\<rparr>\<rparr>"

definition ex_iopt_accesses :: io_pagetable where
  "ex_iopt_accesses = ex_iopt\<lparr>access_list :=
     [ex_access\<lparr>access_data := 1\<rparr>, ex_access\<lparr>access_data := 2, obj_lockable := False\<rparr>]\<rparr>"

definition log_unmap ::
  "iommufd_access \<Rightarrow> nat \<Rightarrow> ulong \<Rightarrow> ulong \<Rightarrow> (nat \<times> ulong \<times> ulong) list \<Rightarrow> (nat \<times> ulong \<times> ulong) list" where
  "log_unmap access data iova len calls = calls @ [(data, iova, len)]"

lemmas access_defs = iommufd_access_pin_pages_def PAGE_SIZE_def check_add_overflow_def
  iopt_area_contig_init_def iopt_area_contig_next_def pin_pages_body_def
  iopt_area_contig_is_aligned_def iopt_area_contig_done_def iopt_area_start_byte_def
  iopt_area_iova_def iopt_area_last_iova_def iopt_area_iova_to_index_def check_area_prot_def
  IOMMUFD_ACCESS_RW_WRITE_def IOMMU_READ_def IOMMU_WRITE_def iopt_area_add_access_def
  page_frames_def pin_pages_err_remove_def remove_access_body_def iopt_area_remove_access_def
  WARN_ON_def iommufd_access_unpin_pages_def iommufd_access_rw_def access_rw_body_def
  iopt_pages_rw_access_def

lemmas ex_defs = ex_area1_def ex_area2_def ex_area3_def ex_iopt_def ex_iopt_draining_def
  ex_area2_draining_def ex_iopt_teardown_def
  ex_state_def ex_access_def no_pin_fault_def no_rw_fault_def

lemmas attach_defs = iommufd_hw_pagetable_attach_def iommufd_hw_pagetable_enforce_cc_def
  iommufd_group_setup_msi_def iopt_table_enforce_dev_resv_regions_def
  iopt_remove_reserved_iova_def iommufd_hw_pagetable_detach_def
  iommufd_hw_pagetable_link_ioas_def iopt_table_add_domain_def fill_domain_def
  unfill_domain_def iommufd_hw_pagetable_abort_def iommufd_hw_pagetable_alloc_def
  iommufd_device_auto_get_domain_def PHYS_ADDR_MAX_def same_table_def
  new_domain_ok_def

lemmas ex_attach_defs = ex_env_def ex_env_nodev_def ex_env_new_def ex_hwpt_new_def ex_idev_def ex_hwpt1_def ex_hwpt2_def ex_kstate_def
  ex_kstate_bound_def ex_iopt_accesses_def log_unmap_def

section \<open>Properties of the walk\<close>

lemma for_each_walk_exec:
  "for_each_contig_area body p s = walk_exec body (fst (contig_run p)) (snd (contig_run p)) s"
proof (induction body p s rule: for_each_contig_area.induct)
  case (1 body iter s)
  then show ?case by simp
next
  case (2 body iter a s)
  then show ?case
    by (auto simp: contig_run.simps(2) split: prod.splits option.splits)
qed

text \<open>What a step of the iterator gives when the walk goes on.\<close>

lemma iopt_area_iter_first_Some:
  "iopt_area_iter_first xs c l = Some (b, rest) \<Longrightarrow>
     node_start b \<le> l \<and> c \<le> node_last b \<and> (\<exists>skipped. xs = skipped @ b # rest \<and>
       (\<forall>x\<in>set skipped. \<not> (node_start x \<le> l \<and> c \<le> node_last x)))"
proof (induction xs)
  case Nil
  then show ?case by simp
next
  case (Cons x xs)
  show ?case
  proof (cases "node_start x \<le> l \<and> c \<le> node_last x")
    case True
    with Cons.prems show ?thesis by auto
  next
    case False
    with Cons.prems have "iopt_area_iter_first xs c l = Some (b, rest)" by auto
    from Cons.IH [OF this] obtain skipped where
      "node_start b \<le> l" "c \<le> node_last b" "xs = skipped @ b # rest"
      "\<forall>x\<in>set skipped. \<not> (node_start x \<le> l \<and> c \<le> node_last x)" by blast
    with False show ?thesis
      by (intro conjI exI [of _ "x # skipped"]) auto
  qed
qed

lemma iopt_area_iter_first_None:
  "iopt_area_iter_first xs c l = None \<Longrightarrow> \<forall>x\<in>set xs. \<not> (node_start x \<le> l \<and> c \<le> node_last x)"
  by (induction xs) (auto split: if_splits)

lemma iopt_area_iter_first_mono:
  "iopt_area_iter_first xs c l = Some (b, rest) \<Longrightarrow> node_start b \<le> l' \<Longrightarrow> l' \<le> l \<Longrightarrow>
     iopt_area_iter_first xs c l' = Some (b, rest)"
  by (induction xs) (auto split: if_splits)

lemma contig_next_Some:
  assumes "iopt_area_contig_next iter = (iter', Some b)"
  shows "\<exists>a. area iter = Some a \<and> node_last a < last_iova iter \<and>
           iopt_area_iter_first (succs iter) (node_last a + 1) (last_iova iter) = Some (b, succs iter') \<and>
           node_start b = node_last a + 1 \<and> area iter' = Some b \<and>
           cur_iova iter' = node_last a + 1 \<and> last_iova iter' = last_iova iter"
  using assms
  by (auto simp: iopt_area_contig_next_def iopt_area_last_iova_def iopt_area_iova_def
      split: option.splits if_splits)

lemma contig_next_None:
  assumes "iopt_area_contig_next iter = (iter', None)" "area iter = Some a"
  shows "(last_iova iter \<le> node_last a \<and> iter' = iter) \<or>
         (node_last a < last_iova iter \<and> cur_iova iter' = node_last a + 1 \<and> area iter' = None)"
  using assms
  by (auto simp: iopt_area_contig_next_def iopt_area_last_iova_def iopt_area_iova_def
      split: option.splits if_splits)

lemma word_lt_succ: "(x :: ulong) < y \<Longrightarrow> x < x + 1"
  by unat_arith

lemma word_succ_le: "(x :: ulong) < y \<Longrightarrow> x + 1 \<le> y"
  by (rule inc_le)

lemma word_succ_le_lt: "(x :: ulong) < l \<Longrightarrow> x + 1 \<le> y \<Longrightarrow> x < y"
  by unat_arith

lemma word_succ_minus: "(x :: ulong) + 1 - 1 = x"
  by simp


lemma contig_run_Some:
  "contig_run (iter, Some a) = (w, e) \<Longrightarrow>
     \<exists>w'. w = (iter, a) # w' \<and> contig_run (iopt_area_contig_next iter) = (w', e)"
  by (auto simp: contig_run.simps(2) split: prod.splits)

lemma contig_run_next_None:
  "iopt_area_contig_next iter = (iter', None) \<Longrightarrow> contig_run (iter, Some a) = ([(iter, a)], iter')"
  by simp

lemma contig_run_next_Some:
  "iopt_area_contig_next iter = (iter', Some b) \<Longrightarrow> contig_run (iter', Some b) = (w, e) \<Longrightarrow>
     contig_run (iter, Some a) = ((iter, a) # w, e)"
  by simp

declare contig_run.simps(2) [simp del]

lemma walk_elem_weaken: "walk_elem c l p \<Longrightarrow> c' \<le> c \<Longrightarrow> walk_elem c' l p"
  by (auto simp: walk_elem_def)

lemma contig_walk_sorted:
  assumes "contig_run (iter, Some a) = (w, e)" "area iter = Some a" "cur_iova iter \<le> node_last a"
  shows "sorted_wrt (walk_ord (last_iova iter)) w \<and> (\<forall>p\<in>set w. walk_elem (cur_iova iter) (last_iova iter) p)"
  using assms
proof (induction w arbitrary: iter a)
  case Nil
  then show ?case by (auto split: prod.splits)
next
  case (Cons p w)
  from contig_run_Some [OF Cons.prems(1)]
  have p: "p = (iter, a)" and run: "contig_run (iopt_area_contig_next iter) = (w, e)" by auto
  have here: "walk_elem (cur_iova iter) (last_iova iter) p"
    using Cons.prems by (simp add: p walk_elem_def)
  obtain iter' v where n: "iopt_area_contig_next iter = (iter', v)"
    by (cases "iopt_area_contig_next iter")
  show ?case
  proof (cases v)
    case None
    with run n have "w = []" by simp
    with here show ?thesis by simp
  next
    case (Some b)
    from contig_next_Some [OF n [unfolded Some]] Cons.prems(2)
    have lt: "node_last a < last_iova iter"
      and first: "iopt_area_iter_first (succs iter) (node_last a + 1) (last_iova iter) = Some (b, succs iter')"
      and sb: "node_start b = node_last a + 1"
      and ar: "area iter' = Some b" and cu: "cur_iova iter' = node_last a + 1"
      and la: "last_iova iter' = last_iova iter"
      by auto
    from iopt_area_iter_first_Some [OF first] have "node_last a + 1 \<le> node_last b" by simp
    then have le: "cur_iova iter' \<le> node_last b" by (simp add: cu)
    from Cons.IH [OF run [unfolded n Some] ar le]
    have srt: "sorted_wrt (walk_ord (last_iova iter)) w"
      and el: "\<forall>p\<in>set w. walk_elem (node_last a + 1) (last_iova iter) p"
      by (simp_all add: la cu)
    have a1: "node_last a < node_last a + 1" using lt by (rule word_lt_succ)
    have "\<forall>q\<in>set w. walk_ord (last_iova iter) p q"
    proof
      fix q assume "q \<in> set w"
      with el have "walk_elem (node_last a + 1) (last_iova iter) q" by blast
      then show "walk_ord (last_iova iter) p q"
        using a1 lt by (cases q) (auto simp: walk_ord_def walk_elem_def p)
    qed
    moreover have "\<forall>q\<in>set w. walk_elem (cur_iova iter) (last_iova iter) q"
    proof
      fix q assume "q \<in> set w"
      with el have "walk_elem (node_last a + 1) (last_iova iter) q" by blast
      moreover have "cur_iova iter \<le> node_last a + 1"
        using Cons.prems(3) a1 by simp
      ultimately show "walk_elem (cur_iova iter) (last_iova iter) q"
        by (rule walk_elem_weaken)
    qed
    ultimately show ?thesis using srt here by simp
  qed
qed


lemma contig_next_relast:
  assumes n: "iopt_area_contig_next iter = (iter', Some b)"
    and a: "area iter = Some a" and lo: "node_last a + 1 \<le> l'" and hi: "l' \<le> last_iova iter"
  shows "iopt_area_contig_next (iter\<lparr>last_iova := l'\<rparr>) = (iter'\<lparr>last_iova := l'\<rparr>, Some b)"
proof -
  from n a obtain rest where lt: "node_last a < last_iova iter"
    and first: "iopt_area_iter_first (succs iter) (node_last a + 1) (last_iova iter) = Some (b, rest)"
    and sb: "node_start b = node_last a + 1"
    and it': "iter' = iter\<lparr>cur_iova := node_last a + 1, area := Some b, succs := rest\<rparr>"
    by (auto simp: iopt_area_contig_next_def iopt_area_last_iova_def iopt_area_iova_def
        split: option.splits if_splits)
  have nle: "\<not> l' \<le> node_last a"
    using word_succ_le_lt [OF lt lo] by simp
  have first': "iopt_area_iter_first (succs iter) (node_last a + 1) l' = Some (b, rest)"
    using iopt_area_iter_first_mono [OF first _ hi] sb lo by simp
  show ?thesis
    using a nle first' sb
    by (simp add: it' iopt_area_contig_next_def iopt_area_last_iova_def iopt_area_iova_def)
qed

lemma contig_next_relast_stop:
  assumes "area iter = Some a" "l' \<le> node_last a"
  shows "iopt_area_contig_next (iter\<lparr>last_iova := l'\<rparr>) = (iter\<lparr>last_iova := l'\<rparr>, None)"
  using assms by (simp add: iopt_area_contig_next_def iopt_area_last_iova_def)

lemma contig_walk_cut:
  assumes "contig_run (iter, Some a) = (w, e)" "area iter = Some a" "cur_iova iter \<le> node_last a"
    and "w = pre @ (itj, aj) # post"
    and "cur_iova itj \<le> l'" "l' \<le> node_last aj" "l' \<le> last_iova iter"
  shows "contig_run (iter\<lparr>last_iova := l'\<rparr>, Some a) =
           (map (relast l') (pre @ [(itj, aj)]), itj\<lparr>last_iova := l'\<rparr>)"
  using assms
proof (induction pre arbitrary: iter a w)
  case Nil
  from contig_run_Some [OF Nil.prems(1)] Nil.prems(4) have "(itj, aj) = (iter, a)" by auto
  then show ?case
    using Nil.prems contig_next_relast_stop [of iter a l']
    by (simp add: relast_def contig_run.simps(2))
next
  case (Cons p pre)
  from contig_run_Some [OF Cons.prems(1)] Cons.prems(4)
  have p: "p = (iter, a)" and run: "contig_run (iopt_area_contig_next iter) = (pre @ (itj, aj) # post, e)"
    by auto
  obtain iter' v where n: "iopt_area_contig_next iter = (iter', v)"
    by (cases "iopt_area_contig_next iter")
  from run n obtain b where v: "v = Some b" by (cases v) auto
  from contig_next_Some [OF n [unfolded v]] Cons.prems(2)
  have lt: "node_last a < last_iova iter"
    and first: "iopt_area_iter_first (succs iter) (node_last a + 1) (last_iova iter) = Some (b, succs iter')"
    and ar: "area iter' = Some b" and cu: "cur_iova iter' = node_last a + 1"
    and la: "last_iova iter' = last_iova iter"
    by auto
  from iopt_area_iter_first_Some [OF first] have le: "cur_iova iter' \<le> node_last b" by (simp add: cu)
  from contig_walk_sorted [OF run [unfolded n v] ar le]
  have "walk_elem (node_last a + 1) (last_iova iter) (itj, aj)" by (simp add: cu la)
  then have "node_last a + 1 \<le> cur_iova itj" by (simp add: walk_elem_def)
  then have lo: "node_last a + 1 \<le> l'" using Cons.prems(5) by (rule order_trans)
  have step: "iopt_area_contig_next (iter\<lparr>last_iova := l'\<rparr>) = (iter'\<lparr>last_iova := l'\<rparr>, Some b)"
    using contig_next_relast [OF n [unfolded v] Cons.prems(2) lo Cons.prems(7)] .
  have "contig_run (iter'\<lparr>last_iova := l'\<rparr>, Some b) =
      (map (relast l') (pre @ [(itj, aj)]), itj\<lparr>last_iova := l'\<rparr>)"
    using Cons.IH [OF run [unfolded n v] ar le refl Cons.prems(5,6)] Cons.prems(7) la by simp
  then show ?case
    using contig_run_next_Some [OF step] by (simp add: p relast_def)
qed

lemma contig_walk_adjacent:
  assumes "contig_run (iter, Some a) = (w, e)" "area iter = Some a" "cur_iova iter \<le> node_last a"
    and "w = pre @ (itj, aj) # post"
  shows "case post of
           [] \<Rightarrow> (iopt_area_contig_done e \<and> e = itj) \<or>
                 (\<not> iopt_area_contig_done e \<and> cur_iova e = node_last aj + 1 \<and> node_last aj < last_iova iter)
         | (itn, an) # post' \<Rightarrow> cur_iova itn = node_last aj + 1 \<and> node_last aj < last_iova iter"
  using assms
proof (induction pre arbitrary: iter a w)
  case Nil
  from contig_run_Some [OF Nil.prems(1)] Nil.prems(4)
  have j: "itj = iter" "aj = a" and run: "contig_run (iopt_area_contig_next iter) = (post, e)" by auto
  obtain iter' v where n: "iopt_area_contig_next iter = (iter', v)"
    by (cases "iopt_area_contig_next iter")
  show ?case
  proof (cases v)
    case None
    with run n have post: "post = []" and e: "e = iter'" by auto
    from contig_next_None [OF n [unfolded None] Nil.prems(2)] show ?thesis
      using Nil.prems(2) by (auto simp: post e j iopt_area_contig_done_def iopt_area_last_iova_def)
  next
    case (Some b)
    with run n obtain post' where post: "post = (iter', b) # post'"
      by (auto dest: contig_run_Some)
    from contig_next_Some [OF n [unfolded Some]] Nil.prems(2) show ?thesis
      by (auto simp: post j)
  qed
next
  case (Cons p pre)
  from contig_run_Some [OF Cons.prems(1)] Cons.prems(4)
  have p: "p = (iter, a)" and run: "contig_run (iopt_area_contig_next iter) = (pre @ (itj, aj) # post, e)"
    by auto
  obtain iter' v where n: "iopt_area_contig_next iter = (iter', v)"
    by (cases "iopt_area_contig_next iter")
  from run n obtain b where v: "v = Some b" by (cases v) auto
  from contig_next_Some [OF n [unfolded v]] Cons.prems(2)
  have first: "iopt_area_iter_first (succs iter) (node_last a + 1) (last_iova iter) = Some (b, succs iter')"
    and ar: "area iter' = Some b" and cu: "cur_iova iter' = node_last a + 1"
    and la: "last_iova iter' = last_iova iter"
    by auto
  from iopt_area_iter_first_Some [OF first] have le: "cur_iova iter' \<le> node_last b" by (simp add: cu)
  from Cons.IH [OF run [unfolded n v] ar le refl] show ?case unfolding la .
qed


lemma walk_exec_remove:
  "mset (map (walk_key l) w) \<subseteq># accesses s \<Longrightarrow>
     walk_exec (remove_access_body l) w e s =
       (e, None, s\<lparr>accesses := accesses s - mset (map (walk_key l) w)\<rparr>)"
proof (induction w arbitrary: s)
  case Nil
  then show ?case by simp
next
  case (Cons p w)
  obtain i x where p: "p = (i, x)" by (cases p)
  let ?k = "walk_key l (i, x)"
  from Cons.prems have k: "?k \<in># accesses s" and rest: "mset (map (walk_key l) w) \<subseteq># accesses s - {#?k#}"
    by (simp_all add: p insert_subset_eq_iff)
  let ?s1 = "s\<lparr>accesses := accesses s - {#?k#}\<rparr>"
  have body: "remove_access_body l i x s = (None, ?s1)"
    using k by (simp add: remove_access_body_def iopt_area_remove_access_def walk_key_def)
  from rest have "mset (map (walk_key l) w) \<subseteq># accesses ?s1" by simp
  from Cons.IH [OF this] show ?case
    by (simp add: p body)
qed

lemma walk_exec_pin:
  "walk_exec (pin_pages_body fault flags l) w e (out, s) = (it', rc, out', s') \<Longrightarrow>
     \<exists>pre post. w = pre @ post \<and>
       s' = s\<lparr>accesses := accesses s + mset (map (walk_key l) pre)\<rparr> \<and>
       (case rc of None \<Rightarrow> post = [] \<and> it' = e | Some err \<Rightarrow> \<exists>a post'. post = (it', a) # post')"
proof (induction w arbitrary: out s)
  case Nil
  then show ?case by auto
next
  case (Cons p w)
  obtain i x where p: "p = (i, x)" by (cases p)
  obtain r o1 s1 where body: "pin_pages_body fault flags l i x (out, s) = (r, o1, s1)"
    by (cases "pin_pages_body fault flags l i x (out, s)")
  show ?case
  proof (cases r)
    case (Some err)
    from body Some have "s1 = s"
      by (auto simp: pin_pages_body_def Let_def iopt_area_add_access_def split: if_splits option.splits)
    moreover from Cons.prems body Some have "it' = i" "rc = Some err" "s' = s1"
      by (simp_all add: p)
    ultimately show ?thesis
      by (intro exI [of _ "[]"] exI [of _ "p # w"]) (simp add: p)
  next
    case None
    from body None have s1: "s1 = s\<lparr>accesses := add_mset (walk_key l (i, x)) (accesses s)\<rparr>"
      by (auto simp: pin_pages_body_def Let_def iopt_area_add_access_def walk_key_def
          split: if_splits option.splits)
    from Cons.prems body None have "walk_exec (pin_pages_body fault flags l) w e (o1, s1) = (it', rc, out', s')"
      by (simp add: p)
    from Cons.IH [OF this] obtain pre post where w: "w = pre @ post"
      and s': "s' = s1\<lparr>accesses := accesses s1 + mset (map (walk_key l) pre)\<rparr>"
      and rc: "case rc of None \<Rightarrow> post = [] \<and> it' = e | Some err \<Rightarrow> \<exists>a post'. post = (it', a) # post'"
      by blast
    show ?thesis
      using w s' rc
      by (intro exI [of _ "p # pre"] exI [of _ post]) (simp add: p s1)
  qed
qed

lemma contig_init_None:
  "iopt_area_contig_init iopt iova l = (it0, None) \<Longrightarrow>
     cur_iova it0 = iova \<and> area it0 = None \<and> contig_run (it0, None) = ([], it0)"
  by (auto simp: iopt_area_contig_init_def split: option.splits)

lemma contig_init_Some:
  "iopt_area_contig_init iopt iova l = (it0, Some a) \<Longrightarrow>
     cur_iova it0 = iova \<and> last_iova it0 = l \<and> area it0 = Some a \<and> iova \<le> node_last a \<and>
     node_start a \<le> iova \<and>
     iopt_area_iter_first (area_itree iopt) iova iova = Some (a, succs it0) \<and>
     iopt_area_contig_init iopt iova l' = (it0\<lparr>last_iova := l'\<rparr>, Some a)"
  by (auto simp: iopt_area_contig_init_def split: option.splits dest: iopt_area_iter_first_Some)

lemma walk_key_relast:
  assumes srt: "sorted_wrt (walk_ord l) (pre @ (itj, aj) # post)"
    and elem: "\<forall>p\<in>set (pre @ (itj, aj) # post). walk_elem c l p"
    and lt: "node_last aj < l"
  shows "map (walk_key (node_last aj)) (map (relast (node_last aj)) (pre @ [(itj, aj)])) =
         map (walk_key l) (pre @ [(itj, aj)])"
proof -
  from lt have "min l (node_last aj) = node_last aj" by (simp add: min_absorb2 less_imp_le)
  then have j: "walk_key (node_last aj) (relast (node_last aj) (itj, aj)) = walk_key l (itj, aj)"
    by (simp add: walk_key_def relast_def iopt_area_last_iova_def)
  have "walk_key (node_last aj) (relast (node_last aj) p) = walk_key l p" if "p \<in> set pre" for p
  proof -
    obtain i x where p: "p = (i, x)" by (cases p)
    from srt that have "walk_ord l p (itj, aj)"
      by (auto simp: sorted_wrt_append)
    then have 1: "node_last x < cur_iova itj" and 2: "node_last x < l"
      by (simp_all add: walk_ord_def p)
    from elem have "cur_iova itj \<le> node_last aj" by (simp add: walk_elem_def)
    with 1 have "node_last x < node_last aj" by simp
    then have "min (node_last aj) (node_last x) = node_last x" by (simp add: min_absorb2 less_imp_le)
    moreover from 2 have "min l (node_last x) = node_last x" by (simp add: min_absorb2 less_imp_le)
    ultimately show ?thesis
      by (simp add: walk_key_def relast_def iopt_area_last_iova_def p)
  qed
  with j show ?thesis by simp
qed

lemma pin_pages_rollback:
  assumes run: "contig_run (iopt_area_contig_init iopt iova l) = (w, e)"
    and w: "w = pre @ post"
    and fail: "(post = [] \<and> it' = e \<and> \<not> iopt_area_contig_done e) \<or> (\<exists>a post'. post = (it', a) # post')"
    and s': "s' = s\<lparr>accesses := accesses s + mset (map (walk_key l) pre)\<rparr>"
  shows "pin_pages_err_remove iopt iova it' s' = s"
proof -
  obtain it0 v where init: "iopt_area_contig_init iopt iova l = (it0, v)"
    by (cases "iopt_area_contig_init iopt iova l")
  show ?thesis
  proof (cases v)
    case None
    from contig_init_None [OF init [unfolded None]] run init None
    have "w = []" "e = it0" "cur_iova it0 = iova" by auto
    with w fail s' show ?thesis by (auto simp: pin_pages_err_remove_def)
  next
    case (Some a0)
    note i0 = contig_init_Some [OF init [unfolded Some]]
    from i0 have ar: "area it0 = Some a0" and le: "cur_iova it0 \<le> node_last a0"
      and c0: "cur_iova it0 = iova" and l0: "last_iova it0 = l"
      by auto
    from run init Some have run0: "contig_run (it0, Some a0) = (w, e)" by simp
    from contig_run_Some [OF run0] obtain w' where w0: "w = (it0, a0) # w'" by blast
    note srt = contig_walk_sorted [OF run0 ar le, unfolded l0 c0]
    show ?thesis
    proof (cases pre rule: rev_cases)
      case Nil
      with w w0 fail have "it' = it0" by auto
      with Nil s' c0 show ?thesis by (simp add: pin_pages_err_remove_def)
    next
      case (snoc pre0 pj)
      obtain itj aj where pj: "pj = (itj, aj)" by (cases pj)
      from w snoc pj have wj: "w = pre0 @ (itj, aj) # post" by simp
      from contig_walk_adjacent [OF run0 ar le wj] fail
      have cu: "cur_iova it' = node_last aj + 1" and lt: "node_last aj < l"
        by (auto simp: l0)
      from srt wj have ej: "walk_elem iova l (itj, aj)" by simp
      then have 1: "iova \<le> node_last aj" and 2: "cur_iova itj \<le> node_last aj"
        by (auto simp: walk_elem_def)
      have "node_last aj < node_last aj + 1" using lt by (rule word_lt_succ)
      with 1 have less: "iova < cur_iova it'" by (simp add: cu)
      have m1: "cur_iova it' - 1 = node_last aj" by (simp add: cu)
      from i0 have init': "iopt_area_contig_init iopt iova (node_last aj) = (it0\<lparr>last_iova := node_last aj\<rparr>, Some a0)"
        by blast
      have lt': "node_last aj \<le> last_iova it0" using lt by (simp add: l0)
      note cut = contig_walk_cut [OF run0 ar le wj 2 order_refl lt']
      have keys: "map (walk_key (node_last aj)) (map (relast (node_last aj)) (pre0 @ [(itj, aj)])) =
          map (walk_key l) (pre0 @ [(itj, aj)])"
        using srt lt by (intro walk_key_relast [where post = post and c = iova]) (simp_all add: wj)
      have sub: "mset (map (walk_key (node_last aj)) (map (relast (node_last aj)) (pre0 @ [(itj, aj)]))) \<subseteq># accesses s'"
        unfolding keys by (simp add: s' snoc pj)
      note rm = walk_exec_remove [OF sub, unfolded keys]
      have "pin_pages_err_remove iopt iova it' s' =
          snd (snd (walk_exec (remove_access_body (node_last aj))
            (map (relast (node_last aj)) (pre0 @ [(itj, aj)])) (itj\<lparr>last_iova := node_last aj\<rparr>) s'))"
        using less
        by (simp add: pin_pages_err_remove_def m1 init' for_each_walk_exec cut split: prod.splits)
      also have "\<dots> = s'\<lparr>accesses := accesses s' - mset (map (walk_key l) (pre0 @ [(itj, aj)]))\<rparr>"
        by (simp only: rm snd_conv)
      finally show ?thesis
        by (simp add: s' snoc pj)
    qed
  qed
qed

lemma pin_pages_failure_state:
  assumes "iommufd_access_pin_pages cfg fault access iopt iova len flags s = (Inl err, s')"
  shows "s' = (if cfg \<and> (iova_alignment access \<noteq> PAGE_SIZE \<or> \<not> ops_unmap access)
               then WARN_ON True s else s)"
proof (cases "cfg \<and> (iova_alignment access \<noteq> PAGE_SIZE \<or> \<not> ops_unmap access)")
  case True
  with assms show ?thesis by (auto simp: iommufd_access_pin_pages_def)
next
  case False
  show ?thesis
  proof (cases "len = 0 \<or> fst (check_add_overflow iova (len - 1))")
    case True
    with assms False show ?thesis
      by (auto simp: iommufd_access_pin_pages_def split: prod.splits if_splits)
  next
    case nz: False
    define l where "l = iova + (len - 1)"
    have ov: "check_add_overflow iova (len - 1) = (False, l)"
      using nz by (auto simp: check_add_overflow_def l_def)
    obtain w e where run: "contig_run (iopt_area_contig_init iopt iova l) = (w, e)"
      by (cases "contig_run (iopt_area_contig_init iopt iova l)")
    obtain it' rc out' s1 where ex: "walk_exec (pin_pages_body fault flags l) w e ([], s) = (it', rc, out', s1)"
      by (cases "walk_exec (pin_pages_body fault flags l) w e ([], s)")
    from walk_exec_pin [OF ex] obtain pre post where w: "w = pre @ post"
      and s1: "s1 = s\<lparr>accesses := accesses s + mset (map (walk_key l) pre)\<rparr>"
      and rc: "case rc of None \<Rightarrow> post = [] \<and> it' = e | Some err \<Rightarrow> \<exists>a post'. post = (it', a) # post'"
      by blast
    have fe: "for_each_contig_area (pin_pages_body fault flags l)
        (iopt_area_contig_init iopt iova l) ([], s) = (it', rc, out', s1)"
      by (simp add: for_each_walk_exec run ex)
    from nz have len: "len \<noteq> 0" by simp
    have res: "(case rc of Some e' \<Rightarrow> (Inl e', pin_pages_err_remove iopt iova it' s1)
                | None \<Rightarrow> if \<not> iopt_area_contig_done it' then (Inl ENOENT, pin_pages_err_remove iopt iova it' s1)
                          else (Inr out', s1)) = (Inl err, s')"
      using assms unfolding iommufd_access_pin_pages_def if_not_P [OF False] if_not_P [OF len]
      by (cases rc) (simp_all add: ov fe)
    have fail: "(post = [] \<and> it' = e \<and> \<not> iopt_area_contig_done e) \<or> (\<exists>a post'. post = (it', a) # post')"
      using rc res by (cases rc) (auto split: if_splits)
    have "s' = pin_pages_err_remove iopt iova it' s1"
      using res by (cases rc) (auto split: if_splits)
    with pin_pages_rollback [OF run w fail s1] have "s' = s" by simp
    then show ?thesis unfolding if_not_P [OF False] .
  qed
qed


lemma pin_pages_success_state:
  assumes "iommufd_access_pin_pages cfg fault access iopt iova len flags s = (Inr out, s1)"
  shows "len \<noteq> 0 \<and> \<not> iova + (len - 1) < iova \<and>
     (\<exists>w e. contig_run (iopt_area_contig_init iopt iova (iova + (len - 1))) = (w, e) \<and>
        iopt_area_contig_done e \<and>
        walk_exec (pin_pages_body fault flags (iova + (len - 1))) w e ([], s) = (e, None, out, s1) \<and>
        s1 = s\<lparr>accesses := accesses s + mset (map (walk_key (iova + (len - 1))) w)\<rparr>)"
proof -
  have c: "\<not> (cfg \<and> (iova_alignment access \<noteq> PAGE_SIZE \<or> \<not> ops_unmap access))"
  proof
    assume b: "cfg \<and> (iova_alignment access \<noteq> PAGE_SIZE \<or> \<not> ops_unmap access)"
    from assms show False unfolding iommufd_access_pin_pages_def if_P [OF b] by simp
  qed
  have len: "len \<noteq> 0"
    using assms unfolding iommufd_access_pin_pages_def if_not_P [OF c] by auto
  define l where "l = iova + (len - 1)"
  have nov: "\<not> iova + (len - 1) < iova"
    using assms unfolding iommufd_access_pin_pages_def if_not_P [OF c] if_not_P [OF len]
    by (auto simp: check_add_overflow_def)
  then have ov: "check_add_overflow iova (len - 1) = (False, l)"
    by (simp add: check_add_overflow_def l_def)
  obtain w e where run: "contig_run (iopt_area_contig_init iopt iova l) = (w, e)"
    by (cases "contig_run (iopt_area_contig_init iopt iova l)")
  obtain it' rc out' s' where ex: "walk_exec (pin_pages_body fault flags l) w e ([], s) = (it', rc, out', s')"
    by (cases "walk_exec (pin_pages_body fault flags l) w e ([], s)")
  have fe: "for_each_contig_area (pin_pages_body fault flags l)
      (iopt_area_contig_init iopt iova l) ([], s) = (it', rc, out', s')"
    by (simp add: for_each_walk_exec run ex)
  have res: "rc = None \<and> iopt_area_contig_done it' \<and> out' = out \<and> s' = s1"
    using assms unfolding iommufd_access_pin_pages_def if_not_P [OF c] if_not_P [OF len]
    by (cases rc) (simp_all add: ov fe split: if_splits)
  from walk_exec_pin [OF ex] res have "it' = e"
    and "s' = s\<lparr>accesses := accesses s + mset (map (walk_key l) w)\<rparr>"
    by auto
  with res run ex len nov show ?thesis
    unfolding l_def by auto
qed

lemma unpin_pages_after_pin:
  assumes "iommufd_access_pin_pages cfg fault access iopt iova len flags s = (Inr out, s1)"
  shows "iommufd_access_unpin_pages access iopt iova len s1 = s"
proof -
  define l where "l = iova + (len - 1)"
  from pin_pages_success_state [OF assms] obtain w e where len: "len \<noteq> 0" and nov: "\<not> iova + (len - 1) < iova"
    and run: "contig_run (iopt_area_contig_init iopt iova l) = (w, e)"
    and dn: "iopt_area_contig_done e"
    and s1: "s1 = s\<lparr>accesses := accesses s + mset (map (walk_key l) w)\<rparr>"
    unfolding l_def by blast
  have ov: "check_add_overflow iova (len - 1) = (False, l)"
    using nov by (simp add: check_add_overflow_def l_def)
  have sub: "mset (map (walk_key l) w) \<subseteq># accesses s1" by (simp add: s1)
  have "for_each_contig_area (remove_access_body l) (iopt_area_contig_init iopt iova l) s1 =
      (e, None, s1\<lparr>accesses := accesses s1 - mset (map (walk_key l) w)\<rparr>)"
    using walk_exec_remove [OF sub] by (simp add: for_each_walk_exec run)
  then show ?thesis
    using len dn by (simp add: iommufd_access_unpin_pages_def ov WARN_ON_def s1)
qed

lemma walk_exec_no_exit:
  assumes "\<And>i x s. fst (body i x s) = None"
  shows "fst (walk_exec body w e s) = e"
proof (induction w arbitrary: s)
  case Nil
  then show ?case by simp
next
  case (Cons p w)
  obtain i x where p: "p = (i, x)" by (cases p)
  obtain s' where "body i x s = (None, s')"
    using assms [of i x s] by (cases "body i x s") auto
  with Cons.IH [of s'] show ?case by (simp add: p)
qed

lemma WARN_ON_warned: "warned (WARN_ON c s) = (c \<or> warned s)"
  by (simp add: WARN_ON_def)

lemma unpin_pages_warns:
  assumes "len = 0 \<or> iova + (len - 1) < iova \<or>
     \<not> iopt_area_contig_done (snd (contig_run (iopt_area_contig_init iopt iova (iova + (len - 1)))))"
  shows "warned (iommufd_access_unpin_pages access iopt iova len s)"
proof (cases "len = 0 \<or> iova + (len - 1) < iova")
  case True
  then show ?thesis
    by (auto simp: iommufd_access_unpin_pages_def check_add_overflow_def WARN_ON_warned)
next
  case False
  define l where "l = iova + (len - 1)"
  from False have ov: "check_add_overflow iova (len - 1) = (False, l)" and len: "len \<noteq> 0"
    by (simp_all add: check_add_overflow_def l_def)
  from assms False have nd: "\<not> iopt_area_contig_done (snd (contig_run (iopt_area_contig_init iopt iova l)))"
    by (simp add: l_def)
  have "fst (for_each_contig_area (remove_access_body l) (iopt_area_contig_init iopt iova l) s) =
      snd (contig_run (iopt_area_contig_init iopt iova l))"
    unfolding for_each_walk_exec by (rule walk_exec_no_exit) (simp add: remove_access_body_def)
  with nd len show ?thesis
    by (auto simp: iommufd_access_unpin_pages_def ov WARN_ON_warned split: prod.splits)
qed


lemma contig_walk_complete:
  assumes "contig_run (iter, Some a) = (w, e)" "area iter = Some a"
    and "sorted_wrt (\<lambda>a b. node_last a < node_start b) (a # succs iter)"
    and "t \<in> set (a # succs iter)" "node_start t \<le> node_last t"
    and "node_start t \<le> last_iova iter" "cur_iova iter \<le> node_last t"
    and "iopt_area_contig_done e"
  shows "t \<in> snd ` set w"
  using assms
proof (induction w arbitrary: iter a)
  case Nil
  then show ?case by (auto dest: contig_run_Some)
next
  case (Cons p w)
  from contig_run_Some [OF Cons.prems(1)]
  have p: "p = (iter, a)" and run: "contig_run (iopt_area_contig_next iter) = (w, e)" by auto
  show ?case
  proof (cases "t = a")
    case True
    then show ?thesis by (simp add: p)
  next
    case False
    with Cons.prems(4) have tin: "t \<in> set (succs iter)" by simp
    with Cons.prems(3) have lt: "node_last a < node_start t" by simp
    obtain iter' v where n: "iopt_area_contig_next iter = (iter', v)"
      by (cases "iopt_area_contig_next iter")
    show ?thesis
    proof (cases v)
      case None
      with run n have e: "e = iter'" by simp
      from contig_next_None [OF n [unfolded None] Cons.prems(2)] show ?thesis
      proof
        assume "last_iova iter \<le> node_last a \<and> iter' = iter"
        with Cons.prems(6) have "node_start t \<le> node_last a" by (auto intro: order_trans)
        with lt show ?thesis by simp
      next
        assume "node_last a < last_iova iter \<and> cur_iova iter' = node_last a + 1 \<and> area iter' = None"
        with Cons.prems(8) e show ?thesis by (simp add: iopt_area_contig_done_def)
      qed
    next
      case (Some b)
      from contig_next_Some [OF n [unfolded Some]] Cons.prems(2)
      have first: "iopt_area_iter_first (succs iter) (node_last a + 1) (last_iova iter) = Some (b, succs iter')"
        and ar: "area iter' = Some b" and cu: "cur_iova iter' = node_last a + 1"
        and la: "last_iova iter' = last_iova iter"
        by auto
      from iopt_area_iter_first_Some [OF first] obtain skipped where
        sp: "succs iter = skipped @ b # succs iter'"
        and sk: "\<forall>x\<in>set skipped. \<not> (node_start x \<le> last_iova iter \<and> node_last a + 1 \<le> node_last x)"
        by blast
      have c1: "node_last a + 1 \<le> node_start t" using lt by (rule inc_le)
      with Cons.prems(5) have c2: "node_last a + 1 \<le> node_last t" by simp
      with sk Cons.prems(6) have "t \<notin> set skipped" by blast
      with tin sp have tin': "t \<in> set (b # succs iter')" by auto
      from Cons.prems(3) sp have srt': "sorted_wrt (\<lambda>a b. node_last a < node_start b) (b # succs iter')"
        by (simp add: sorted_wrt_append)
      have "t \<in> snd ` set w"
        using Cons.IH [OF run [unfolded n Some] ar srt' tin' Cons.prems(5)] Cons.prems(6,8) c2
        by (simp add: la cu)
      then show ?thesis by simp
    qed
  qed
qed

lemma contig_init_complete:
  assumes wf: "iopt_wf iopt" and t: "t \<in> set (area_itree iopt)"
    and i1: "node_start t \<le> l" and i2: "iova \<le> node_last t"
    and run: "contig_run (iopt_area_contig_init iopt iova l) = (w, e)"
    and dn: "iopt_area_contig_done e"
  shows "t \<in> snd ` set w"
proof -
  obtain it0 v where init: "iopt_area_contig_init iopt iova l = (it0, v)"
    by (cases "iopt_area_contig_init iopt iova l")
  show ?thesis
  proof (cases v)
    case None
    from contig_init_None [OF init [unfolded None]] run init None dn show ?thesis
      by (simp add: iopt_area_contig_done_def)
  next
    case (Some a0)
    note i0 = contig_init_Some [OF init [unfolded Some]]
    from i0 have ar: "area it0 = Some a0" and c0: "cur_iova it0 = iova" and l0: "last_iova it0 = l"
      and first: "iopt_area_iter_first (area_itree iopt) iova iova = Some (a0, succs it0)"
      and a0: "node_start a0 \<le> iova"
      by auto
    from iopt_area_iter_first_Some [OF first] obtain skipped where
      sp: "area_itree iopt = skipped @ a0 # succs it0" by blast
    from wf have srt: "sorted_wrt (\<lambda>a b. node_last a < node_start b) (area_itree iopt)"
      and wft: "node_start t \<le> node_last t"
      using t by (auto simp: iopt_wf_def)
    have "t \<notin> set skipped"
    proof
      assume "t \<in> set skipped"
      with srt sp have "node_last t < node_start a0" by (auto simp: sorted_wrt_append)
      with a0 i2 show False by simp
    qed
    with t sp have tin: "t \<in> set (a0 # succs it0)" by auto
    from srt sp have srt': "sorted_wrt (\<lambda>a b. node_last a < node_start b) (a0 # succs it0)"
      by (simp add: sorted_wrt_append)
    from run init Some have run0: "contig_run (it0, Some a0) = (w, e)" by simp
    show ?thesis
      using contig_walk_complete [OF run0 ar srt' tin wft _ _ dn] i1 i2 by (simp add: l0 c0)
  qed
qed

lemma walk_exec_pin_no_draining:
  "walk_exec (pin_pages_body fault flags l) w e st = (it', None, st') \<Longrightarrow>
     \<forall>x\<in>snd ` set w. \<not> prevent_access x"
proof (induction w arbitrary: st)
  case Nil
  then show ?case by simp
next
  case (Cons p w)
  obtain i x where p: "p = (i, x)" by (cases p)
  obtain r st1 where body: "pin_pages_body fault flags l i x st = (r, st1)"
    by (cases "pin_pages_body fault flags l i x st")
  from Cons.prems have r: "r = None" and rest: "walk_exec (pin_pages_body fault flags l) w e st1 = (it', None, st')"
    by (auto simp: p body split: option.splits)
  from body r have "\<not> prevent_access x"
    by (auto simp: pin_pages_body_def Let_def split: prod.splits if_splits)
  with Cons.IH [OF rest] show ?case by (simp add: p)
qed

lemma walk_exec_rw_no_draining:
  "walk_exec (access_rw_body fault flags l) w e st = (it', None, st') \<Longrightarrow>
     \<forall>x\<in>snd ` set w. \<not> prevent_access x"
proof (induction w arbitrary: st)
  case Nil
  then show ?case by simp
next
  case (Cons p w)
  obtain i x where p: "p = (i, x)" by (cases p)
  obtain r st1 where body: "access_rw_body fault flags l i x st = (r, st1)"
    by (cases "access_rw_body fault flags l i x st")
  from Cons.prems have r: "r = None" and rest: "walk_exec (access_rw_body fault flags l) w e st1 = (it', None, st')"
    by (auto simp: p body split: option.splits)
  from body r have "\<not> prevent_access x"
    by (auto simp: access_rw_body_def Let_def split: prod.splits if_splits)
  with Cons.IH [OF rest] show ?case by (simp add: p)
qed

lemma pin_pages_draining_fails:
  assumes wf: "iopt_wf iopt" and t: "t \<in> set (area_itree iopt)" and dr: "prevent_access t"
    and i1: "node_start t \<le> iova + (len - 1)" and i2: "iova \<le> node_last t"
  shows "\<exists>err. fst (iommufd_access_pin_pages cfg fault access iopt iova len flags s) = Inl err"
proof (cases "fst (iommufd_access_pin_pages cfg fault access iopt iova len flags s)")
  case (Inl err)
  then show ?thesis by blast
next
  case (Inr out)
  then obtain s1 where r: "iommufd_access_pin_pages cfg fault access iopt iova len flags s = (Inr out, s1)"
    by (cases "iommufd_access_pin_pages cfg fault access iopt iova len flags s") simp
  from pin_pages_success_state [OF r] obtain w e where
    run: "contig_run (iopt_area_contig_init iopt iova (iova + (len - 1))) = (w, e)"
    and dn: "iopt_area_contig_done e"
    and ex: "walk_exec (pin_pages_body fault flags (iova + (len - 1))) w e ([], s) = (e, None, out, s1)"
    by blast
  from contig_init_complete [OF wf t i1 i2 run dn] walk_exec_pin_no_draining [OF ex] dr
  show ?thesis by blast
qed


lemma walk_exec_None_end:
  "walk_exec body w e s = (it', None, s') \<Longrightarrow> it' = e"
proof (induction w arbitrary: s)
  case Nil
  then show ?case by simp
next
  case (Cons p w)
  obtain i x where p: "p = (i, x)" by (cases p)
  obtain r s1 where body: "body i x s = (r, s1)" by (cases "body i x s")
  from Cons.prems have "walk_exec body w e s1 = (it', None, s')"
    by (cases r) (simp_all add: p body)
  then show ?case by (rule Cons.IH)
qed

lemma access_rw_body_accesses:
  "access_rw_body fault flags l i x (data, off, s) = (r, data', off', s') \<Longrightarrow>
     accesses s' = accesses s \<and> warned s' = warned s"
  by (auto simp: access_rw_body_def iopt_pages_rw_access_def Let_def split: if_splits option.splits)

lemma walk_exec_rw_accesses:
  "walk_exec (access_rw_body fault flags l) w e (data, off, s) = (it', rc, data', off', s') \<Longrightarrow>
     accesses s' = accesses s \<and> warned s' = warned s"
proof (induction w arbitrary: data off s)
  case Nil
  then show ?case by simp
next
  case (Cons p w)
  obtain i x where p: "p = (i, x)" by (cases p)
  obtain r d1 o1 s1 where body: "access_rw_body fault flags l i x (data, off, s) = (r, d1, o1, s1)"
    by (cases "access_rw_body fault flags l i x (data, off, s)")
  note b = access_rw_body_accesses [OF body]
  show ?case
  proof (cases r)
    case None
    with Cons.prems body have "walk_exec (access_rw_body fault flags l) w e (d1, o1, s1) = (it', rc, data', off', s')"
      by (simp add: p)
    from Cons.IH [OF this] b show ?thesis by simp
  next
    case (Some err)
    with Cons.prems body have "s' = s1" by (simp add: p)
    with b show ?thesis by simp
  qed
qed

lemma access_rw_unfold:
  assumes "len \<noteq> 0" "\<not> iova + (len - 1) < iova"
    and "contig_run (iopt_area_contig_init iopt iova (iova + (len - 1))) = (w, e)"
    and "walk_exec (access_rw_body fault flags (iova + (len - 1))) w e (data, 0, s) = (it', rc, data', off', s')"
  shows "iommufd_access_rw fault access iopt iova data len flags s =
     (case rc of Some err \<Rightarrow> (Some err, data', s')
      | None \<Rightarrow> if \<not> iopt_area_contig_done it' then (Some ENOENT, data', s') else (None, data', s'))"
  using assms
  by (simp add: iommufd_access_rw_def check_add_overflow_def for_each_walk_exec split: option.splits)

lemma access_rw_accesses:
  assumes "iommufd_access_rw fault access iopt iova data len flags s = (rc, data', s')"
  shows "accesses s' = accesses s \<and> warned s' = warned s"
proof (cases "len = 0 \<or> iova + (len - 1) < iova")
  case True
  with assms show ?thesis
    by (auto simp: iommufd_access_rw_def check_add_overflow_def split: if_splits)
next
  case False
  define l where "l = iova + (len - 1)"
  obtain w e where run: "contig_run (iopt_area_contig_init iopt iova l) = (w, e)"
    by (cases "contig_run (iopt_area_contig_init iopt iova l)")
  obtain it' r d1 o1 s1 where ex: "walk_exec (access_rw_body fault flags l) w e (data, 0, s) = (it', r, d1, o1, s1)"
    by (cases "walk_exec (access_rw_body fault flags l) w e (data, 0, s)")
  from False have "len \<noteq> 0" "\<not> iova + (len - 1) < iova" by simp_all
  from access_rw_unfold [OF this run [unfolded l_def] ex [unfolded l_def]] assms
  have "s' = s1" by (cases r) (auto split: if_splits)
  with walk_exec_rw_accesses [OF ex] show ?thesis by simp
qed

lemma access_rw_draining_fails:
  assumes wf: "iopt_wf iopt" and t: "t \<in> set (area_itree iopt)" and dr: "prevent_access t"
    and i1: "node_start t \<le> iova + (len - 1)" and i2: "iova \<le> node_last t"
  shows "\<exists>err. fst (iommufd_access_rw fault access iopt iova data len flags s) = Some err"
proof (cases "len = 0 \<or> iova + (len - 1) < iova")
  case True
  then show ?thesis
    by (auto simp: iommufd_access_rw_def check_add_overflow_def)
next
  case False
  define l where "l = iova + (len - 1)"
  obtain w e where run: "contig_run (iopt_area_contig_init iopt iova l) = (w, e)"
    by (cases "contig_run (iopt_area_contig_init iopt iova l)")
  obtain it' r d1 o1 s1 where ex: "walk_exec (access_rw_body fault flags l) w e (data, 0, s) = (it', r, d1, o1, s1)"
    by (cases "walk_exec (access_rw_body fault flags l) w e (data, 0, s)")
  from False have "len \<noteq> 0" "\<not> iova + (len - 1) < iova" by simp_all
  note unf = access_rw_unfold [OF this run [unfolded l_def] ex [unfolded l_def]]
  show ?thesis
  proof (cases r)
    case (Some err)
    with unf show ?thesis by simp
  next
    case None
    have it': "it' = e"
      using walk_exec_None_end [OF ex [unfolded None]] .
    show ?thesis
    proof (cases "iopt_area_contig_done e")
      case True
      from contig_init_complete [OF wf t i1 [folded l_def] i2 run True]
        walk_exec_rw_no_draining [OF ex [unfolded None]] dr
      show ?thesis by blast
    next
      case False
      with unf None it' show ?thesis by simp
    qed
  qed
qed

lemma walk_exec_first_error:
  assumes "\<And>i x s. fst (body i x s) = chk (i, x)"
  shows "fst (snd (walk_exec body w e s)) = first_error chk w"
proof (induction w arbitrary: s)
  case Nil
  then show ?case by simp
next
  case (Cons p w)
  obtain i x where p: "p = (i, x)" by (cases p)
  obtain r s1 where body: "body i x s = (r, s1)" by (cases "body i x s")
  with assms [of i x s] have r: "chk (i, x) = r" by simp
  show ?case
    using Cons.IH [of s1] by (cases r) (simp_all add: p body r)
qed

lemma pin_pages_body_check:
  "fst (pin_pages_body fault flags l i x st) = pin_check fault flags l (i, x)"
  by (cases st)
    (auto simp: pin_pages_body_def pin_check_def iopt_area_add_access_def walk_key_def Let_def
      split: option.splits)

lemma access_rw_body_check:
  "fst (access_rw_body fault flags l i x st) = rw_check fault flags l (i, x)"
  by (cases st)
    (auto simp: access_rw_body_def rw_check_def iopt_pages_rw_access_def Let_def
      split: option.splits prod.splits)

lemma walk_exec_pin_out:
  "walk_exec (pin_pages_body fault flags l) w e (out, s) = (it', None, out', s') \<Longrightarrow>
     out' = out @ concat (map (walk_frames l) w)"
proof (induction w arbitrary: out s)
  case Nil
  then show ?case by simp
next
  case (Cons p w)
  obtain i x where p: "p = (i, x)" by (cases p)
  obtain r o1 s1 where body: "pin_pages_body fault flags l i x (out, s) = (r, o1, s1)"
    by (cases "pin_pages_body fault flags l i x (out, s)")
  from Cons.prems have r: "r = None"
    and rest: "walk_exec (pin_pages_body fault flags l) w e (o1, s1) = (it', None, out', s')"
    by (auto simp: p body split: option.splits)
  from body r have "o1 = out @ walk_frames l (i, x)"
    by (auto simp: pin_pages_body_def iopt_area_add_access_def walk_frames_def walk_key_def Let_def
        split: if_splits option.splits)
  with Cons.IH [OF rest] show ?case by (simp add: p)
qed

lemma pin_pages_unfold:
  assumes "\<not> (cfg \<and> (iova_alignment access \<noteq> PAGE_SIZE \<or> \<not> ops_unmap access))"
    and "len \<noteq> 0" "\<not> iova + (len - 1) < iova"
    and "contig_run (iopt_area_contig_init iopt iova (iova + (len - 1))) = (w, e)"
    and "walk_exec (pin_pages_body fault flags (iova + (len - 1))) w e ([], s) = (it', rc, out', s')"
  shows "iommufd_access_pin_pages cfg fault access iopt iova len flags s =
     (case rc of Some err \<Rightarrow> (Inl err, pin_pages_err_remove iopt iova it' s')
      | None \<Rightarrow> if \<not> iopt_area_contig_done it' then (Inl ENOENT, pin_pages_err_remove iopt iova it' s')
                else (Inr out', s'))"
  unfolding iommufd_access_pin_pages_def if_not_P [OF assms(1)] if_not_P [OF assms(2)]
  using assms(3-5)
  by (simp add: check_add_overflow_def for_each_walk_exec split: option.splits)

lemma pin_pages_result:
  "fst (iommufd_access_pin_pages cfg fault access iopt iova len flags s) =
     (if cfg \<and> (iova_alignment access \<noteq> PAGE_SIZE \<or> \<not> ops_unmap access) then Inl EINVAL
      else if len = 0 then Inl EINVAL
      else if iova + (len - 1) < iova then Inl EOVERFLOW
      else case contig_run (iopt_area_contig_init iopt iova (iova + (len - 1))) of
        (w, e) \<Rightarrow>
          (case first_error (pin_check fault flags (iova + (len - 1))) w of
             Some err \<Rightarrow> Inl err
           | None \<Rightarrow>
               if iopt_area_contig_done e then Inr (concat (map (walk_frames (iova + (len - 1))) w))
               else Inl ENOENT))"
proof (cases "cfg \<and> (iova_alignment access \<noteq> PAGE_SIZE \<or> \<not> ops_unmap access)")
  case True
  then show ?thesis
    unfolding iommufd_access_pin_pages_def if_P [OF True] by simp
next
  case c: False
  show ?thesis
  proof (cases "len = 0 \<or> iova + (len - 1) < iova")
    case True
    then show ?thesis
      unfolding iommufd_access_pin_pages_def if_not_P [OF c]
      by (auto simp: check_add_overflow_def)
  next
    case False
    then have len: "len \<noteq> 0" and nov: "\<not> iova + (len - 1) < iova" by simp_all
    define l where "l = iova + (len - 1)"
    obtain w e where run: "contig_run (iopt_area_contig_init iopt iova l) = (w, e)"
      by (cases "contig_run (iopt_area_contig_init iopt iova l)")
    obtain it' rc out' s' where
      ex: "walk_exec (pin_pages_body fault flags l) w e ([], s) = (it', rc, out', s')"
      by (cases "walk_exec (pin_pages_body fault flags l) w e ([], s)")
    note unf = pin_pages_unfold [OF c len nov run [unfolded l_def] ex [unfolded l_def]]
    have fe: "first_error (pin_check fault flags l) w = rc"
      using walk_exec_first_error [of "pin_pages_body fault flags l" "pin_check fault flags l" w e "([], s)"]
      by (simp add: pin_pages_body_check ex)
    show ?thesis
    proof (cases rc)
      case (Some err)
      with unf fe len nov run show ?thesis unfolding if_not_P [OF c] by (simp add: l_def)
    next
      case None
      from walk_exec_None_end [OF ex [unfolded None]] have it': "it' = e" .
      from walk_exec_pin_out [OF ex [unfolded None]] have out': "out' = concat (map (walk_frames l) w)"
        by simp
      from unf fe len nov run None it' out' show ?thesis unfolding if_not_P [OF c] by (simp add: l_def)
    qed
  qed
qed

lemma access_rw_result:
  "fst (iommufd_access_rw fault access iopt iova data len flags s) =
     (if len = 0 then Some EINVAL
      else if iova + (len - 1) < iova then Some EOVERFLOW
      else case contig_run (iopt_area_contig_init iopt iova (iova + (len - 1))) of
        (w, e) \<Rightarrow>
          (case first_error (rw_check fault flags (iova + (len - 1))) w of
             Some err \<Rightarrow> Some err
           | None \<Rightarrow> if iopt_area_contig_done e then None else Some ENOENT))"
proof (cases "len = 0 \<or> iova + (len - 1) < iova")
  case True
  then show ?thesis
    by (auto simp: iommufd_access_rw_def check_add_overflow_def)
next
  case False
  then have len: "len \<noteq> 0" and nov: "\<not> iova + (len - 1) < iova" by simp_all
  define l where "l = iova + (len - 1)"
  obtain w e where run: "contig_run (iopt_area_contig_init iopt iova l) = (w, e)"
    by (cases "contig_run (iopt_area_contig_init iopt iova l)")
  obtain it' rc data' off' s' where
    ex: "walk_exec (access_rw_body fault flags l) w e (data, 0, s) = (it', rc, data', off', s')"
    by (cases "walk_exec (access_rw_body fault flags l) w e (data, 0, s)")
  note unf = access_rw_unfold [OF len nov run [unfolded l_def] ex [unfolded l_def]]
  have fe: "first_error (rw_check fault flags l) w = rc"
    using walk_exec_first_error [of "access_rw_body fault flags l" "rw_check fault flags l" w e "(data, 0, s)"]
    by (simp add: access_rw_body_check ex)
  show ?thesis
  proof (cases rc)
    case (Some err)
    with unf fe len nov run show ?thesis by (simp add: l_def)
  next
    case None
    from walk_exec_None_end [OF ex [unfolded None]] have it': "it' = e" .
    from unf fe len nov run None it' show ?thesis by (simp add: l_def)
  qed
qed

lemma first_error_cong:
  "(\<And>p. p \<in> set w \<Longrightarrow> chk p = chk' p) \<Longrightarrow> first_error chk w = first_error chk' w"
  by (induction w) (auto split: option.splits)

lemma access_rw_same_checks:
  assumes c: "\<not> (cfg \<and> (iova_alignment access \<noteq> PAGE_SIZE \<or> \<not> ops_unmap access))"
    and al: "\<forall>p\<in>set (fst (contig_run (iopt_area_contig_init iopt iova (iova + (len - 1))))).
        iopt_area_contig_is_aligned (fst p) (snd p)"
  shows "fst (iommufd_access_rw (\<lambda>st start_byte n. None) access iopt iova data len flags s) =
     (case fst (iommufd_access_pin_pages cfg (\<lambda>k f. None) access iopt iova len flags s')
      of Inl err \<Rightarrow> Some err | Inr out \<Rightarrow> None)"
proof -
  define l where "l = iova + (len - 1)"
  obtain w e where run: "contig_run (iopt_area_contig_init iopt iova l) = (w, e)"
    by (cases "contig_run (iopt_area_contig_init iopt iova l)")
  have "first_error (rw_check (\<lambda>st start_byte n. None) flags l) w =
      first_error (pin_check (\<lambda>k f. None) flags l) w"
  proof (rule first_error_cong)
    fix p assume "p \<in> set w"
    with al run have "iopt_area_contig_is_aligned (fst p) (snd p)" by (simp add: l_def)
    then show "rw_check (\<lambda>st start_byte n. None) flags l p = pin_check (\<lambda>k f. None) flags l p"
      by (cases p) (simp add: rw_check_def pin_check_def)
  qed
  then show ?thesis
    using run unfolding access_rw_result pin_pages_result if_not_P [OF c]
    by (simp add: l_def [symmetric] split: option.splits)
qed


lemma contig_walk_areas:
  assumes "contig_run (iter, Some a) = (w, e)"
  shows "snd ` set w \<subseteq> set (a # succs iter)"
  using assms
proof (induction w arbitrary: iter a)
  case Nil
  then show ?case by simp
next
  case (Cons p w)
  from contig_run_Some [OF Cons.prems(1)]
  have p: "p = (iter, a)" and run: "contig_run (iopt_area_contig_next iter) = (w, e)" by auto
  obtain iter' v where n: "iopt_area_contig_next iter = (iter', v)"
    by (cases "iopt_area_contig_next iter")
  show ?case
  proof (cases v)
    case None
    with run n have "w = []" by simp
    then show ?thesis by (simp add: p)
  next
    case (Some b)
    from contig_next_Some [OF n [unfolded Some]] obtain c where
      first: "iopt_area_iter_first (succs iter) c (last_iova iter) = Some (b, succs iter')"
      by auto
    from iopt_area_iter_first_Some [OF first] have "set (b # succs iter') \<subseteq> set (succs iter)"
      by auto
    with Cons.IH [OF run [unfolded n Some]] show ?thesis by (auto simp: p)
  qed
qed

lemma contig_walk_covered:
  assumes "contig_run (iter, Some a) = (w, e)" "area iter = Some a"
    and "node_start a \<le> cur_iova iter" "cur_iova iter \<le> node_last a"
    and "iopt_area_contig_done e" "cur_iova iter \<le> x" "x \<le> last_iova iter"
  shows "\<exists>b\<in>snd ` set w. node_start b \<le> x \<and> x \<le> node_last b"
  using assms
proof (induction w arbitrary: iter a)
  case Nil
  then show ?case by (auto dest: contig_run_Some)
next
  case (Cons p w)
  from contig_run_Some [OF Cons.prems(1)]
  have p: "p = (iter, a)" and run: "contig_run (iopt_area_contig_next iter) = (w, e)" by auto
  show ?case
  proof (cases "x \<le> node_last a")
    case True
    with Cons.prems(3,6) have "node_start a \<le> x" by (auto intro: order_trans)
    with True show ?thesis by (auto simp: p)
  next
    case False
    then have gt: "node_last a < x" by simp
    obtain iter' v where n: "iopt_area_contig_next iter = (iter', v)"
      by (cases "iopt_area_contig_next iter")
    show ?thesis
    proof (cases v)
      case None
      with run n have e: "e = iter'" by simp
      from contig_next_None [OF n [unfolded None] Cons.prems(2)] show ?thesis
      proof
        assume "last_iova iter \<le> node_last a \<and> iter' = iter"
        with Cons.prems(7) have "x \<le> node_last a" by (auto intro: order_trans)
        with gt show ?thesis by simp
      next
        assume "node_last a < last_iova iter \<and> cur_iova iter' = node_last a + 1 \<and> area iter' = None"
        with Cons.prems(5) e show ?thesis by (simp add: iopt_area_contig_done_def)
      qed
    next
      case (Some b)
      from contig_next_Some [OF n [unfolded Some]] Cons.prems(2)
      have first: "iopt_area_iter_first (succs iter) (node_last a + 1) (last_iova iter) = Some (b, succs iter')"
        and sb: "node_start b = node_last a + 1"
        and ar: "area iter' = Some b" and cu: "cur_iova iter' = node_last a + 1"
        and la: "last_iova iter' = last_iova iter"
        by auto
      from iopt_area_iter_first_Some [OF first] have le: "cur_iova iter' \<le> node_last b" by (simp add: cu)
      have c1: "node_last a + 1 \<le> x" using gt by (rule inc_le)
      have "\<exists>b\<in>snd ` set w. node_start b \<le> x \<and> x \<le> node_last b"
        using Cons.IH [OF run [unfolded n Some] ar _ le Cons.prems(5)] c1 Cons.prems(7)
        by (simp add: cu sb la)
      then show ?thesis by auto
    qed
  qed
qed

lemma contig_walk_done:
  assumes "contig_run (iter, Some a) = (w, e)" "area iter = Some a"
    and "sorted_wrt (\<lambda>a b. node_last a < node_start b) (a # succs iter)"
    and "\<forall>x. cur_iova iter \<le> x \<and> x \<le> last_iova iter \<longrightarrow>
          (\<exists>b\<in>set (a # succs iter). node_start b \<le> x \<and> x \<le> node_last b)"
    and "cur_iova iter \<le> node_last a"
  shows "iopt_area_contig_done e"
  using assms
proof (induction w arbitrary: iter a)
  case Nil
  then show ?case by (auto dest: contig_run_Some)
next
  case (Cons p w)
  from contig_run_Some [OF Cons.prems(1)]
  have p: "p = (iter, a)" and run: "contig_run (iopt_area_contig_next iter) = (w, e)" by auto
  show ?case
  proof (cases "last_iova iter \<le> node_last a")
    case True
    with Cons.prems(2) have "iopt_area_contig_next iter = (iter, None)"
      by (simp add: iopt_area_contig_next_def iopt_area_last_iova_def)
    with run have "e = iter" by simp
    with True Cons.prems(2) show ?thesis
      by (simp add: iopt_area_contig_done_def iopt_area_last_iova_def)
  next
    case False
    then have lt: "node_last a < last_iova iter" by simp
    let ?c = "node_last a + 1"
    have a1: "node_last a < ?c" using lt by (rule word_lt_succ)
    have cl: "?c \<le> last_iova iter" using lt by (rule inc_le)
    have cur_c: "cur_iova iter \<le> ?c" using Cons.prems(5) a1 by simp
    have cov: "\<exists>b\<in>set (succs iter). node_start b \<le> x \<and> x \<le> node_last b"
      if "?c \<le> x" "x \<le> last_iova iter" for x
    proof -
      from that cur_c have "cur_iova iter \<le> x" by (auto intro: order_trans)
      with Cons.prems(4) that obtain b where b: "b \<in> set (a # succs iter)"
        "node_start b \<le> x" "x \<le> node_last b" by blast
      from that(1) a1 have "node_last a < x" by simp
      with b(3) have "b \<noteq> a" by auto
      with b show ?thesis by auto
    qed
    from cov [OF order_refl cl] obtain b0 where b0: "b0 \<in> set (succs iter)"
      "node_start b0 \<le> ?c" "?c \<le> node_last b0" by blast
    have "iopt_area_iter_first (succs iter) ?c (last_iova iter) \<noteq> None"
    proof
      assume "iopt_area_iter_first (succs iter) ?c (last_iova iter) = None"
      from iopt_area_iter_first_None [OF this] b0 cl show False
        by (auto intro: order_trans)
    qed
    then obtain b rest where first: "iopt_area_iter_first (succs iter) ?c (last_iova iter) = Some (b, rest)"
      by auto
    from iopt_area_iter_first_Some [OF first] obtain skipped where
      bl: "?c \<le> node_last b" and sp: "succs iter = skipped @ b # rest"
      and sk: "\<forall>x\<in>set skipped. \<not> (node_start x \<le> last_iova iter \<and> ?c \<le> node_last x)"
      by blast
    from Cons.prems(3) sp have ab: "node_last a < node_start b"
      and srt': "sorted_wrt (\<lambda>a b. node_last a < node_start b) (b # rest)"
      by (simp_all add: sorted_wrt_append)
    have sb: "node_start b = ?c"
    proof -
      from ab have 1: "?c \<le> node_start b" by (rule inc_le)
      from b0(2) cl have "node_start b0 \<le> last_iova iter" by (rule order_trans)
      with sk b0(3) have "b0 \<notin> set skipped" by blast
      with b0(1) sp have "b0 = b \<or> b0 \<in> set rest" by auto
      then have "node_start b \<le> ?c"
      proof
        assume "b0 = b" with b0(2) show ?thesis by simp
      next
        assume "b0 \<in> set rest"
        with srt' have "node_last b < node_start b0" by simp
        with b0(2) bl show ?thesis by simp
      qed
      with 1 show ?thesis by simp
    qed
    have n: "iopt_area_contig_next iter =
        (iter\<lparr>cur_iova := ?c, area := Some b, succs := rest\<rparr>, Some b)"
      using Cons.prems(2) False first sb
      by (simp add: iopt_area_contig_next_def iopt_area_last_iova_def iopt_area_iova_def)
    let ?it = "iter\<lparr>cur_iova := ?c, area := Some b, succs := rest\<rparr>"
    have cov': "\<forall>x. cur_iova ?it \<le> x \<and> x \<le> last_iova ?it \<longrightarrow>
        (\<exists>b'\<in>set (b # rest). node_start b' \<le> x \<and> x \<le> node_last b')"
    proof (intro allI impI)
      fix x assume x: "cur_iova ?it \<le> x \<and> x \<le> last_iova ?it"
      then have x1: "?c \<le> x" and x2: "x \<le> last_iova iter" by simp_all
      from cov [OF x1 x2] obtain b' where b': "b' \<in> set (succs iter)"
        "node_start b' \<le> x" "x \<le> node_last b'" by blast
      from b'(2) x2 have "node_start b' \<le> last_iova iter" by (rule order_trans)
      moreover from x1 b'(3) have "?c \<le> node_last b'" by (rule order_trans)
      ultimately have "b' \<notin> set skipped" using sk by blast
      with b'(1) sp have "b' \<in> set (b # rest)" by auto
      with b'(2,3) show "\<exists>b'\<in>set (b # rest). node_start b' \<le> x \<and> x \<le> node_last b'" by blast
    qed
    show ?thesis
      using Cons.IH [OF run [unfolded n], of] srt' cov' bl by simp
  qed
qed

lemma contig_done_iff_covered:
  assumes wf: "iopt_wf iopt" and le: "iova \<le> l"
  shows "iopt_area_contig_done (snd (contig_run (iopt_area_contig_init iopt iova l))) \<longleftrightarrow>
         range_covered iopt iova l"
proof -
  obtain it0 v where init: "iopt_area_contig_init iopt iova l = (it0, v)"
    by (cases "iopt_area_contig_init iopt iova l")
  from wf have srt: "sorted_wrt (\<lambda>a b. node_last a < node_start b) (area_itree iopt)"
    by (simp add: iopt_wf_def)
  show ?thesis
  proof (cases v)
    case None
    from contig_init_None [OF init [unfolded None]]
    have nd: "\<not> iopt_area_contig_done (snd (contig_run (iopt_area_contig_init iopt iova l)))"
      by (simp add: init None iopt_area_contig_done_def)
    from init None have "iopt_area_iter_first (area_itree iopt) iova iova = None"
      by (auto simp: iopt_area_contig_init_def split: option.splits)
    from iopt_area_iter_first_None [OF this] le have "\<not> range_covered iopt iova l"
      by (auto simp: range_covered_def)
    with nd show ?thesis by simp
  next
    case (Some a0)
    note i0 = contig_init_Some [OF init [unfolded Some]]
    from i0 have ar: "area it0 = Some a0" and c0: "cur_iova it0 = iova" and l0: "last_iova it0 = l"
      and first: "iopt_area_iter_first (area_itree iopt) iova iova = Some (a0, succs it0)"
      and a0: "node_start a0 \<le> iova" and a0l: "iova \<le> node_last a0"
      by auto
    from iopt_area_iter_first_Some [OF first] obtain skipped where
      sp: "area_itree iopt = skipped @ a0 # succs it0" by blast
    from srt sp have srt': "sorted_wrt (\<lambda>a b. node_last a < node_start b) (a0 # succs it0)"
      by (simp add: sorted_wrt_append)
    obtain w e where run0: "contig_run (it0, Some a0) = (w, e)"
      by (cases "contig_run (it0, Some a0)")
    show ?thesis
    proof
      assume "iopt_area_contig_done (snd (contig_run (iopt_area_contig_init iopt iova l)))"
      then have dn: "iopt_area_contig_done e" by (simp add: init Some run0)
      show "range_covered iopt iova l"
        unfolding range_covered_def
      proof (intro allI impI)
        fix x assume "iova \<le> x \<and> x \<le> l"
        with contig_walk_covered [OF run0 ar _ _ dn, of x] a0 a0l
        obtain b where "b \<in> snd ` set w" "node_start b \<le> x" "x \<le> node_last b"
          by (auto simp: c0 l0)
        moreover from contig_walk_areas [OF run0] sp have "snd ` set w \<subseteq> set (area_itree iopt)"
          by auto
        ultimately show "\<exists>a\<in>set (area_itree iopt). node_start a \<le> x \<and> x \<le> node_last a"
          by blast
      qed
    next
      assume cov: "range_covered iopt iova l"
      have "\<forall>x. cur_iova it0 \<le> x \<and> x \<le> last_iova it0 \<longrightarrow>
          (\<exists>b\<in>set (a0 # succs it0). node_start b \<le> x \<and> x \<le> node_last b)"
      proof (intro allI impI)
        fix x assume "cur_iova it0 \<le> x \<and> x \<le> last_iova it0"
        then have x: "iova \<le> x" "x \<le> l" by (simp_all add: c0 l0)
        with cov obtain b where b: "b \<in> set (area_itree iopt)" "node_start b \<le> x" "x \<le> node_last b"
          by (auto simp: range_covered_def)
        have "b \<notin> set skipped"
        proof
          assume "b \<in> set skipped"
          with srt sp have "node_last b < node_start a0" by (auto simp: sorted_wrt_append)
          with a0 x(1) b(3) show False by simp
        qed
        with b sp show "\<exists>b\<in>set (a0 # succs it0). node_start b \<le> x \<and> x \<le> node_last b"
          by auto
      qed
      from contig_walk_done [OF run0 ar srt' this] a0l
      show "iopt_area_contig_done (snd (contig_run (iopt_area_contig_init iopt iova l)))"
        by (simp add: init Some run0 c0)
    qed
  qed
qed

lemma prefix_len:
  fixes iova l' len :: ulong
  assumes "iova \<le> l'" "l' < iova + (len - 1)" "len \<noteq> 0"
  shows "l' - iova + 1 \<noteq> 0 \<and> l' - iova + 1 < len \<and> iova + (l' - iova + 1 - 1) = l' \<and>
         \<not> iova + (l' - iova + 1 - 1) < iova"
proof -
  have 1: "iova + (l' - iova + 1 - 1) = l'" by simp
  have 2: "l' - iova < len - 1" using assms(2,1) by (rule word_less_sub_right)
  then have "l' - iova < l' - iova + 1" by (rule word_lt_succ)
  then have 3: "l' - iova + 1 \<noteq> 0" by auto
  from 2 have "l' - iova + 1 \<le> len - 1" by (rule inc_le)
  moreover have "len - 1 < len"
    using measure_unat [OF assms(3)] by (simp add: word_less_nat_alt)
  ultimately have 4: "l' - iova + 1 < len" by simp
  from 1 3 4 assms(1) show ?thesis by simp
qed

lemma walk_exec_split:
  assumes keep: "\<forall>i x s r s'. body i x s = (Some r, s') \<longrightarrow> s' = s"
    and "walk_exec body w e s = (it', rc, s')"
  shows "\<exists>pre post. w = pre @ post \<and> (\<forall>e0. walk_exec body pre e0 s = (e0, None, s')) \<and>
       (case rc of None \<Rightarrow> post = [] \<and> it' = e | Some err \<Rightarrow> \<exists>a post'. post = (it', a) # post')"
  using assms(2)
proof (induction w arbitrary: s)
  case Nil
  then show ?case by auto
next
  case (Cons p w)
  obtain i x where p: "p = (i, x)" by (cases p)
  obtain r s1 where body: "body i x s = (r, s1)" by (cases "body i x s")
  show ?case
  proof (cases r)
    case (Some err)
    from keep body [unfolded Some] have "s1 = s" by blast
    moreover from Cons.prems body Some have "it' = i" "rc = Some err" "s' = s1"
      by (simp_all add: p)
    ultimately show ?thesis
      by (intro exI [of _ "[]"] exI [of _ "p # w"]) (simp add: p)
  next
    case None
    from Cons.prems body None have "walk_exec body w e s1 = (it', rc, s')"
      by (simp add: p)
    from Cons.IH [OF this] obtain pre post where w: "w = pre @ post"
      and ex: "\<forall>e0. walk_exec body pre e0 s1 = (e0, None, s')"
      and rc: "case rc of None \<Rightarrow> post = [] \<and> it' = e | Some err \<Rightarrow> \<exists>a post'. post = (it', a) # post'"
      by blast
    show ?thesis
      using w ex rc
      by (intro exI [of _ "p # pre"] exI [of _ post]) (simp add: p body None)
  qed
qed

lemma walk_exec_map:
  assumes "\<And>p. p \<in> set w \<Longrightarrow> body' (fst (f p)) (snd (f p)) = body (fst p) (snd p)"
    and "walk_exec body w e s = (e, None, s')"
  shows "walk_exec body' (map f w) e' s = (e', None, s')"
  using assms
proof (induction w arbitrary: s)
  case Nil
  then show ?case by simp
next
  case (Cons p w)
  obtain i x where p: "p = (i, x)" by (cases p)
  obtain i' x' where fp: "f (i, x) = (i', x')" by (cases "f (i, x)")
  obtain r s1 where body: "body i x s = (r, s1)" by (cases "body i x s")
  from Cons.prems(1) [of p] have b': "body' i' x' = body i x" unfolding p by (simp add: fp)
  from Cons.prems(2) body have r: "r = None" and rest: "walk_exec body w e s1 = (e, None, s')"
    by (cases r; simp add: p)+
  have "walk_exec body' (map f w) e' s1 = (e', None, s')"
    using Cons.IH [OF _ rest] Cons.prems(1) by simp
  then show ?case by (simp add: p fp b' body r)
qed

lemma access_rw_body_keep:
  "access_rw_body fault flags l i x st = (Some r, st') \<Longrightarrow> st' = st"
  by (cases st)
    (auto simp: access_rw_body_def iopt_pages_rw_access_def Let_def split: if_splits option.splits)

lemma access_rw_body_relast:
  assumes "min l' (node_last x) = min l (node_last x)"
  shows "access_rw_body fault flags l' (i\<lparr>last_iova := l'\<rparr>) x = access_rw_body fault flags l i x"
  using assms by (simp add: access_rw_body_def iopt_area_last_iova_def Let_def cong: if_cong)

lemma access_rw_error_prefix:
  assumes res: "iommufd_access_rw fault access iopt iova data len flags s = (Some err, data', s')"
    and changed: "(data', s') \<noteq> (data, s)"
  shows "\<exists>len'. len' \<noteq> 0 \<and> len' < len \<and>
     iommufd_access_rw fault access iopt iova data len' flags s = (None, data', s')"
proof -
  have len: "len \<noteq> 0"
  proof
    assume "len = 0"
    with res have "data' = data \<and> s' = s" by (simp add: iommufd_access_rw_def)
    with changed show False by simp
  qed
  have nov: "\<not> iova + (len - 1) < iova"
  proof
    assume "iova + (len - 1) < iova"
    with res len have "data' = data \<and> s' = s"
      by (simp add: iommufd_access_rw_def check_add_overflow_def)
    with changed show False by simp
  qed
  define l where "l = iova + (len - 1)"
  obtain w e where run: "contig_run (iopt_area_contig_init iopt iova l) = (w, e)"
    by (cases "contig_run (iopt_area_contig_init iopt iova l)")
  obtain it' rc d1 o1 s1 where
    ex: "walk_exec (access_rw_body fault flags l) w e (data, 0, s) = (it', rc, d1, o1, s1)"
    by (cases "walk_exec (access_rw_body fault flags l) w e (data, 0, s)")
  note unf = access_rw_unfold [OF len nov run [unfolded l_def] ex [unfolded l_def]]
  have d1: "d1 = data'" and s1: "s1 = s'"
    and fl: "rc \<noteq> None \<or> \<not> iopt_area_contig_done it'"
  proof -
    show "d1 = data'" using unf res by (cases rc) (auto split: if_splits)
    show "s1 = s'" using unf res by (cases rc) (auto split: if_splits)
    show "rc \<noteq> None \<or> \<not> iopt_area_contig_done it'"
      using unf res by (cases rc) (auto split: if_splits)
  qed
  have keep: "\<forall>i x st r st'. access_rw_body fault flags l i x st = (Some r, st') \<longrightarrow> st' = st"
    using access_rw_body_keep by blast
  from walk_exec_split [where body = "access_rw_body fault flags l", OF keep ex]
  obtain pre post where sp: "w = pre @ post \<and>
      (\<forall>e0. walk_exec (access_rw_body fault flags l) pre e0 (data, 0, s) = (e0, None, d1, o1, s1)) \<and>
      (case rc of None \<Rightarrow> post = [] \<and> it' = e | Some err \<Rightarrow> \<exists>a post'. post = (it', a) # post')"
    by (elim exE)
  from sp have w: "w = pre @ post" by (rule conjunct1)
  from sp have exp: "walk_exec (access_rw_body fault flags l) pre e0 (data, 0, s) = (e0, None, d1, o1, s1)" for e0
    by simp
  from sp have rc: "case rc of None \<Rightarrow> post = [] \<and> it' = e | Some err \<Rightarrow> \<exists>a post'. post = (it', a) # post'"
    by simp
  have fail: "(post = [] \<and> it' = e \<and> \<not> iopt_area_contig_done e) \<or> (\<exists>a post'. post = (it', a) # post')"
    using rc fl by (cases rc) auto
  have "pre \<noteq> []"
  proof
    assume "pre = []"
    with exp [of e] have "d1 = data" "s1 = s" by simp_all
    with changed d1 s1 show False by simp
  qed
  then obtain pre0 itj aj where pre: "pre = pre0 @ [(itj, aj)]"
    by (cases pre rule: rev_cases) auto
  obtain it0 v where init: "iopt_area_contig_init iopt iova l = (it0, v)"
    by (cases "iopt_area_contig_init iopt iova l")
  from run init w pre obtain a0 where v: "v = Some a0" by (cases v) auto
  note i0 = contig_init_Some [OF init [unfolded v]]
  from i0 have ar: "area it0 = Some a0" and le: "cur_iova it0 \<le> node_last a0"
    and c0: "cur_iova it0 = iova" and l0: "last_iova it0 = l"
    by auto
  from run init v have run0: "contig_run (it0, Some a0) = (w, e)" by simp
  note srt = contig_walk_sorted [OF run0 ar le, unfolded l0 c0]
  from w pre have wj: "w = pre0 @ (itj, aj) # post" by simp
  from contig_walk_adjacent [OF run0 ar le wj] fail
  have lt: "node_last aj < l" by (auto simp: l0)
  from srt wj have ej: "walk_elem iova l (itj, aj)" by simp
  then have 1: "iova \<le> node_last aj" and 2: "cur_iova itj \<le> node_last aj" and aj: "area itj = Some aj"
    by (auto simp: walk_elem_def)
  define l' where "l' = node_last aj"
  define len' where "len' = l' - iova + 1"
  from prefix_len [of iova l' len] 1 lt len
  have len'0: "len' \<noteq> 0" and len'lt: "len' < len" and l'eq: "iova + (len' - 1) = l'"
    and nov': "\<not> iova + (len' - 1) < iova"
    by (simp_all add: l'_def len'_def l_def)
  from i0 have init': "iopt_area_contig_init iopt iova l' = (it0\<lparr>last_iova := l'\<rparr>, Some a0)"
    by blast
  have lt': "l' \<le> last_iova it0" using lt by (simp add: l0 l'_def)
  have cut: "contig_run (it0\<lparr>last_iova := l'\<rparr>, Some a0) =
      (map (relast l') pre, itj\<lparr>last_iova := l'\<rparr>)"
    using contig_walk_cut [OF run0 ar le wj 2 order_refl lt' [unfolded l'_def]]
    by (simp add: pre l'_def)
  have dn: "iopt_area_contig_done (itj\<lparr>last_iova := l'\<rparr>)"
    using aj by (simp add: iopt_area_contig_done_def iopt_area_last_iova_def l'_def)
  have same: "access_rw_body fault flags l' (fst (relast l' p)) (snd (relast l' p)) =
      access_rw_body fault flags l (fst p) (snd p)" if "p \<in> set pre" for p
  proof -
    obtain i x where p: "p = (i, x)" by (cases p)
    have "min l' (node_last x) = min l (node_last x)"
    proof (cases "p = (itj, aj)")
      case True
      with lt show ?thesis by (simp add: p l'_def min_absorb2 less_imp_le)
    next
      case False
      with that pre have "p \<in> set pre0" by auto
      with srt wj have "walk_ord l p (itj, aj)" by (auto simp: sorted_wrt_append)
      then have a: "node_last x < cur_iova itj" and b: "node_last x < l"
        by (simp_all add: walk_ord_def p)
      from a 2 have "node_last x < l'" by (simp add: l'_def)
      with b show ?thesis by (simp add: min_absorb2 less_imp_le)
    qed
    then show ?thesis by (simp add: p relast_def access_rw_body_relast)
  qed
  note exp [of e]
  from walk_exec_map [where body = "access_rw_body fault flags l"
      and body' = "access_rw_body fault flags l'" and f = "relast l'", OF same this,
      of "itj\<lparr>last_iova := l'\<rparr>"]
  have ex': "walk_exec (access_rw_body fault flags l') (map (relast l') pre) (itj\<lparr>last_iova := l'\<rparr>)
      (data, 0, s) = (itj\<lparr>last_iova := l'\<rparr>, None, d1, o1, s1)"
    by simp
  have run': "contig_run (iopt_area_contig_init iopt iova (iova + (len' - 1))) =
      (map (relast l') pre, itj\<lparr>last_iova := l'\<rparr>)"
    by (simp add: l'eq init' cut)
  have ex'': "walk_exec (access_rw_body fault flags (iova + (len' - 1))) (map (relast l') pre)
      (itj\<lparr>last_iova := l'\<rparr>) (data, 0, s) = (itj\<lparr>last_iova := l'\<rparr>, None, d1, o1, s1)"
    using ex' by (simp add: l'eq)
  from access_rw_unfold [OF len'0 nov' run' ex''] dn
  have "iommufd_access_rw fault access iopt iova data len' flags s = (None, data', s')"
    by (simp add: d1 s1)
  with len'0 len'lt show ?thesis by blast
qed

section \<open>Properties of attach and of the selection of a domain\<close>

lemma notify_unmap_loop_fold:
  "notify_unmap_loop unmap l iova len s =
     fold (\<lambda>a. unmap a (access_data a) iova len) (filter obj_lockable l) s"
  by (induction l arbitrary: s) auto

lemma reserve_regions_props:
  "iopt_reserve_regions rs owner t msi = (rc, t', msi') \<Longrightarrow>
     iopt_remove_reserved_iova t' owner = iopt_remove_reserved_iova t owner"
proof (induction rs arbitrary: t msi)
  case Nil
  then show ?case by simp
next
  case (Cons r rs)
  obtain start lst m where r: "r = (start, lst, m)" by (cases r)
  show ?case
  proof (cases "\<exists>a\<in>set (area_itree t). node_start a \<le> lst \<and> start \<le> node_last a")
    case True
    with Cons.prems show ?thesis by (simp add: r)
  next
    case False
    let ?t1 = "t\<lparr>reserved_itree := reserved_itree t @ [(start, lst, owner)]\<rparr>"
    from Cons.prems False
    have "iopt_reserve_regions rs owner ?t1 (if m then start else msi) = (rc, t', msi')"
      by (simp add: r)
    from Cons.IH [OF this] show ?thesis
      by (simp add: iopt_remove_reserved_iova_def)
  qed
qed

lemma remove_reserved_idem:
  "iopt_remove_reserved_iova (iopt_remove_reserved_iova t owner) owner = iopt_remove_reserved_iova t owner"
  by (simp add: iopt_remove_reserved_iova_def)

lemma enforce_resv_props:
  "iopt_table_enforce_dev_resv_regions e t d msi = (rc, t', msi') \<Longrightarrow>
     iopt_remove_reserved_iova t' d = iopt_remove_reserved_iova t d \<and>
     (rc \<noteq> None \<longrightarrow> t' = iopt_remove_reserved_iova t d)"
  by (auto simp: iopt_table_enforce_dev_resv_regions_def remove_reserved_idem
      split: prod.splits option.splits dest: reserve_regions_props)

lemma attach_failure:
  assumes "iommufd_hw_pagetable_attach e hid hwpt idev s = (Some err, hwpt', s')"
  shows "same_table (dev idev) s s'"
  using assms
  by (auto simp: iommufd_hw_pagetable_attach_def same_table_def Let_def remove_reserved_idem
      split: if_splits prod.splits option.splits dest!: enforce_resv_props)


lemma enforce_cc_linked:
  "iommufd_hw_pagetable_enforce_cc e hwpt = (rc, hwpt') \<Longrightarrow>
     hwpt_item_linked hwpt' = hwpt_item_linked hwpt \<and> hwpt_parent hwpt' = hwpt_parent hwpt \<and>
     hwpt_domain hwpt' = hwpt_domain hwpt"
  by (auto simp: iommufd_hw_pagetable_enforce_cc_def Let_def split: if_splits option.splits)

lemma setup_msi_linked:
  "iommufd_group_setup_msi e g hwpt = (rc, hwpt') \<Longrightarrow>
     hwpt_item_linked hwpt' = hwpt_item_linked hwpt \<and> hwpt_parent hwpt' = hwpt_parent hwpt \<and>
     hwpt_domain hwpt' = hwpt_domain hwpt"
  by (auto simp: iommufd_group_setup_msi_def split: if_splits option.splits)

lemma attach_linked:
  assumes "iommufd_hw_pagetable_attach e hid hwpt idev s = (rc, hwpt', s')"
  shows "hwpt_item_linked hwpt' = hwpt_item_linked hwpt \<and> hwpt_parent hwpt' = hwpt_parent hwpt \<and>
     hwpt_domain hwpt' = hwpt_domain hwpt"
  using assms
  by (auto simp: iommufd_hw_pagetable_attach_def Let_def
      split: if_splits prod.splits option.splits dest!: enforce_cc_linked setup_msi_linked)

lemma enforce_cc_hwpt:
  "iommufd_hw_pagetable_enforce_cc e hwpt = (rc, hwpt') \<Longrightarrow>
     hwpt' = hwpt\<lparr>enforce_cache_coherency := enforce_cache_coherency hwpt'\<rparr>"
  by (auto simp: iommufd_hw_pagetable_enforce_cc_def Let_def split: if_splits option.splits)

lemma setup_msi_hwpt:
  "iommufd_group_setup_msi e g hwpt = (rc, hwpt') \<Longrightarrow>
     hwpt' = hwpt\<lparr>msi_cookie := msi_cookie hwpt'\<rparr> \<and>
     enforce_cache_coherency hwpt' = enforce_cache_coherency hwpt"
  by (auto simp: iommufd_group_setup_msi_def split: if_splits option.splits)

lemma attach_hwpt:
  assumes "iommufd_hw_pagetable_attach e hid hwpt idev s = (rc, hwpt', s')"
  shows "hwpt' = hwpt\<lparr>enforce_cache_coherency := enforce_cache_coherency hwpt',
                       msi_cookie := msi_cookie hwpt'\<rparr> \<and> kwarned s' = kwarned s"
proof -
  obtain r1 h1 where cc: "(if dev_enforce_cache_coherency idev then iommufd_hw_pagetable_enforce_cc e hwpt
               else (None, hwpt)) = (r1, h1)"
    by (cases "if dev_enforce_cache_coherency idev then iommufd_hw_pagetable_enforce_cc e hwpt
               else (None, hwpt)")
  then have h1: "h1 = hwpt\<lparr>enforce_cache_coherency := enforce_cache_coherency h1\<rparr>"
    by (auto split: if_splits dest: enforce_cc_hwpt)
  have "(hwpt' = hwpt \<or> hwpt' = h1 \<or> (\<exists>g r. iommufd_group_setup_msi e g h1 = (r, hwpt'))) \<and>
      kwarned s' = kwarned s"
    using assms cc
    by (auto simp: iommufd_hw_pagetable_attach_def Let_def
        split: if_splits prod.splits option.splits)
  then show ?thesis
  proof (elim conjE disjE exE)
    assume "hwpt' = hwpt" "kwarned s' = kwarned s"
    then show ?thesis by simp
  next
    assume "hwpt' = h1" "kwarned s' = kwarned s"
    with h1 show ?thesis
      by (cases hwpt) auto
  next
    fix g r assume m: "iommufd_group_setup_msi e g h1 = (r, hwpt')" and k: "kwarned s' = kwarned s"
    from setup_msi_hwpt [OF m] h1 k show ?thesis
      by (cases hwpt, cases h1, cases hwpt') auto
  qed
qed

lemma attach_success:
  assumes "iommufd_hw_pagetable_attach e hid hwpt idev s = (None, hwpt', s1)"
  shows "iopt_remove_reserved_iova (ioas_iopt s1) (dev idev) = iopt_remove_reserved_iova (ioas_iopt s) (dev idev) \<and>
     hwpt_list s1 = hwpt_list s \<and> domain_entries s1 = domain_entries s \<and>
     device_list (igroup s1) = device_list (igroup s) @ [idev_id idev] \<and>
     (group_hwpt (igroup s) = None \<or> group_hwpt (igroup s) = Some hid) \<and>
     (device_list (igroup s) = [] \<longrightarrow> group_hwpt (igroup s1) = Some hid)"
  using assms
  by (auto simp: iommufd_hw_pagetable_attach_def Let_def
      split: if_splits prod.splits option.splits dest!: enforce_resv_props)

lemma fun_if_triv [simp]: "(\<lambda>a. if a = d then f d else f a) = f"
  by auto

lemma fold_unfill:
  "fold (unfill_domain d) new s =
     s\<lparr>domain_entries := (domain_entries s)
          (d := domain_entries s d - mset (map (\<lambda>a. (node_start a, node_last a)) new))\<rparr>"
proof (induction new arbitrary: s)
  case Nil
  then show ?case by simp
next
  case (Cons a new)
  have "fold (unfill_domain d) (a # new) s = fold (unfill_domain d) new (unfill_domain d a s)"
    by simp
  also have "\<dots> = (unfill_domain d a s)\<lparr>domain_entries := (domain_entries (unfill_domain d a s))
      (d := domain_entries (unfill_domain d a s) d - mset (map (\<lambda>a. (node_start a, node_last a)) new))\<rparr>"
    by (rule Cons.IH)
  also have "\<dots> = s\<lparr>domain_entries := (domain_entries s)
      (d := domain_entries s d - mset (map (\<lambda>a. (node_start a, node_last a)) (a # new)))\<rparr>"
    by (simp add: unfill_domain_def cong: if_cong)
  finally show ?case .
qed

lemma fill_areas_state:
  "iopt_fill_areas e d as filled s = (rc, filled', s') \<Longrightarrow>
     \<exists>new. filled' = filled @ new \<and>
       s' = s\<lparr>domain_entries := (domain_entries s)
               (d := domain_entries s d + mset (map (\<lambda>a. (node_start a, node_last a)) new))\<rparr>"
proof (induction as arbitrary: filled s)
  case Nil
  then show ?case by (simp cong: if_cong)
next
  case (Cons a as)
  show ?case
  proof (cases "fill_fault e d a")
    case (Some err)
    with Cons.prems show ?thesis by (simp add: fill_domain_def cong: if_cong)
  next
    case None
    let ?s1 = "s\<lparr>domain_entries := (domain_entries s)
        (d := add_mset (node_start a, node_last a) (domain_entries s d))\<rparr>"
    from Cons.prems None have "iopt_fill_areas e d as (filled @ [a]) ?s1 = (rc, filled', s')"
      by (simp add: fill_domain_def)
    from Cons.IH [OF this] obtain new where
      f: "filled' = (filled @ [a]) @ new"
      and s': "s' = ?s1\<lparr>domain_entries := (domain_entries ?s1)
          (d := domain_entries ?s1 d + mset (map (\<lambda>a. (node_start a, node_last a)) new))\<rparr>"
      by blast
    show ?thesis
      by (rule exI [of _ "a # new"]) (simp add: f s' fun_upd_def cong: if_cong)
  qed
qed

lemma add_domain_failure:
  assumes "iopt_table_add_domain e d s = (Some err, s')"
  shows "s' = s"
proof (cases "\<exists>a\<in>set (area_itree (ioas_iopt s)). domain_incompatible e d a")
  case True
  with assms show ?thesis by (simp add: iopt_table_add_domain_def)
next
  case False
  obtain rc filled s1 where f: "iopt_fill_areas e d (area_itree (ioas_iopt s)) [] s = (rc, filled, s1)"
    by (cases "iopt_fill_areas e d (area_itree (ioas_iopt s)) [] s")
  from fill_areas_state [OF f] have
    s1: "s1 = s\<lparr>domain_entries := (domain_entries s)
          (d := domain_entries s d + mset (map (\<lambda>a. (node_start a, node_last a)) filled))\<rparr>"
    by simp
  from assms False f have "s' = fold (unfill_domain d) filled s1"
    by (cases rc) (simp_all add: iopt_table_add_domain_def)
  then show ?thesis
    by (simp add: fold_unfill s1 cong: if_cong)
qed

lemma link_ioas_failure:
  assumes "iommufd_hw_pagetable_link_ioas e hid hwpt s = (Some err, hwpt', s')"
  shows "s' = s \<and> hwpt' = hwpt"
  using assms
  by (auto simp: iommufd_hw_pagetable_link_ioas_def split: if_splits prod.splits option.splits
      dest: add_domain_failure)

lemma abort_unlinked:
  "\<not> hwpt_item_linked hwpt \<Longrightarrow> iommufd_hw_pagetable_abort hid hwpt s = s"
  by (simp add: iommufd_hw_pagetable_abort_def)

lemma same_table_refl: "same_table d s s"
  by (simp add: same_table_def)

lemma same_table_kwarned: "same_table d s (s\<lparr>kwarned := b\<rparr>)"
  by (simp add: same_table_def)

lemma detach_after_attach:
  assumes att: "iommufd_hw_pagetable_attach e hid hwpt idev s = (None, hwpt', s1)"
    and inv: "device_list (igroup s) = [] \<longleftrightarrow> group_hwpt (igroup s) = None"
    and fresh: "group_hwpt (igroup s) \<noteq> Some hid"
  shows "same_table (dev idev) s (iommufd_hw_pagetable_detach idev s1)"
proof -
  note a = attach_success [OF att]
  from a fresh have "group_hwpt (igroup s) = None" by blast
  with inv have dl: "device_list (igroup s) = []" by simp
  with a have "device_list (igroup s1) = [idev_id idev]" by simp
  then show ?thesis
    using a dl inv
    by (simp add: iommufd_hw_pagetable_detach_def same_table_def Let_def)
qed

lemma alloc_failure:
  assumes fail: "iommufd_hw_pagetable_alloc e idev parent user_data immediate_attach s = (Inl err, s')"
    and inv: "device_list (igroup s) = [] \<longleftrightarrow> group_hwpt (igroup s) = None"
    and fresh: "\<forall>hid. object_alloc e = Inr hid \<longrightarrow> group_hwpt (igroup s) \<noteq> Some hid"
  shows "same_table (dev idev) s s'"
proof (cases "(user_data \<or> parent \<noteq> None) \<and> \<not> has_domain_alloc_user e")
  case True
  with fail show ?thesis
    unfolding iommufd_hw_pagetable_alloc_def if_P [OF True] by (simp add: same_table_refl)
next
  case c1: False
  show ?thesis
  proof (cases "object_alloc e")
    case (Inl x)
    with fail show ?thesis
      unfolding iommufd_hw_pagetable_alloc_def if_not_P [OF c1] by (simp add: same_table_refl)
  next
    case (Inr hid)
    with fresh have fr: "group_hwpt (igroup s) \<noteq> Some hid" by blast
    show ?thesis
    proof (cases "if has_domain_alloc_user e then domain_alloc_user e else domain_alloc e")
      case None
      with fail Inr show ?thesis
        unfolding iommufd_hw_pagetable_alloc_def if_not_P [OF c1] by (simp add: same_table_refl)
    next
      case (Some d)
      define hwpt where "hwpt = \<lparr>hwpt_domain = d, hwpt_parent = map_option fst parent,
          enforce_cache_coherency = False, msi_cookie = False,
          auto_domain = False, hwpt_lockable = False, hwpt_item_linked = False\<rparr>"
      have nl: "\<not> hwpt_item_linked hwpt" by (simp add: hwpt_def)
      define bad where "bad \<longleftrightarrow> (parent \<noteq> None \<and> domain_type_of e d \<noteq> IOMMU_DOMAIN_NESTED) \<or>
          (parent = None \<and> domain_type_of e d \<noteq> IOMMU_DOMAIN_UNMANAGED)"
      have unf: "iommufd_hw_pagetable_alloc e idev parent user_data immediate_attach s =
          (if bad then (Inl EINVAL, iommufd_hw_pagetable_abort hid hwpt (s\<lparr>kwarned := True\<rparr>))
           else
             (case (if dev_enforce_cache_coherency idev
                    then iommufd_hw_pagetable_enforce_cc e hwpt else (None, hwpt)) of
                (Some err, hwpt1) \<Rightarrow>
                  (Inl err, iommufd_hw_pagetable_abort hid hwpt1 (s\<lparr>kwarned := True\<rparr>))
              | (None, hwpt1) \<Rightarrow>
                  (case (if immediate_attach
                         then iommufd_hw_pagetable_attach e hid hwpt1 idev s
                         else (None, hwpt1, s)) of
                     (Some err, hwpt2, s1) \<Rightarrow>
                       (Inl err, iommufd_hw_pagetable_abort hid hwpt2 s1)
                   | (None, hwpt2, s1) \<Rightarrow>
                       (case iommufd_hw_pagetable_link_ioas e hid hwpt2 s1 of
                          (Some err, hwpt3, s2) \<Rightarrow>
                            (Inl err,
                             iommufd_hw_pagetable_abort hid hwpt3
                               (if immediate_attach
                                then iommufd_hw_pagetable_detach idev s2 else s2))
                        | (None, hwpt3, s2) \<Rightarrow> (Inr (hid, hwpt3), s2)))))"
        unfolding iommufd_hw_pagetable_alloc_def if_not_P [OF c1] bad_def hwpt_def Let_def
        by (simp only: Inr Some sum.case option.case)
      show ?thesis
      proof (cases bad)
        case True
        with fail unf have "s' = iommufd_hw_pagetable_abort hid hwpt (s\<lparr>kwarned := True\<rparr>)"
          by simp
        with nl show ?thesis by (simp add: abort_unlinked same_table_kwarned)
      next
        case c2: False
        obtain r1 hwpt1 where cc: "(if dev_enforce_cache_coherency idev
            then iommufd_hw_pagetable_enforce_cc e hwpt else (None, hwpt)) = (r1, hwpt1)"
          by (cases "if dev_enforce_cache_coherency idev
            then iommufd_hw_pagetable_enforce_cc e hwpt else (None, hwpt)")
        have nl1: "\<not> hwpt_item_linked hwpt1"
          using cc nl by (auto split: if_splits dest: enforce_cc_linked)
        show ?thesis
        proof (cases r1)
          case (Some err1)
          with fail unf c2 cc
          have "s' = iommufd_hw_pagetable_abort hid hwpt1 (s\<lparr>kwarned := True\<rparr>)"
            by simp
          with nl1 show ?thesis by (simp add: abort_unlinked same_table_kwarned)
        next
          case None
          obtain r2 hwpt2 s1 where at: "(if immediate_attach
              then iommufd_hw_pagetable_attach e hid hwpt1 idev s else (None, hwpt1, s)) = (r2, hwpt2, s1)"
            by (cases "if immediate_attach
              then iommufd_hw_pagetable_attach e hid hwpt1 idev s else (None, hwpt1, s)")
          have nl2: "\<not> hwpt_item_linked hwpt2"
            using at nl1 by (auto split: if_splits dest: attach_linked)
          show ?thesis
          proof (cases r2)
            case (Some err2)
            with fail unf c2 cc None at
            have s': "s' = iommufd_hw_pagetable_abort hid hwpt2 s1"
              by simp
            from at Some have "iommufd_hw_pagetable_attach e hid hwpt1 idev s = (Some err2, hwpt2, s1)"
              by (auto split: if_splits)
            from attach_failure [OF this] s' nl2 show ?thesis by (simp add: abort_unlinked)
          next
            case n2: None
            obtain r3 hwpt3 s2 where lk: "iommufd_hw_pagetable_link_ioas e hid hwpt2 s1 = (r3, hwpt3, s2)"
              by (cases "iommufd_hw_pagetable_link_ioas e hid hwpt2 s1")
            from fail unf c2 cc None at n2 lk
            obtain err3 where r3: "r3 = Some err3"
              and s': "s' = iommufd_hw_pagetable_abort hid hwpt3
                  (if immediate_attach then iommufd_hw_pagetable_detach idev s2 else s2)"
              by (cases r3) simp_all
            from link_ioas_failure [OF lk [unfolded r3]] have s2: "s2 = s1" and h3: "hwpt3 = hwpt2"
              by simp_all
            show ?thesis
            proof (cases immediate_attach)
              case True
              with at n2 have "iommufd_hw_pagetable_attach e hid hwpt1 idev s = (None, hwpt2, s1)"
                by simp
              from detach_after_attach [OF this inv fr] s' True s2 h3 nl2 show ?thesis
                by (simp add: abort_unlinked)
            next
              case False
              with at have "s1 = s" by simp
              with s' False s2 h3 nl2 show ?thesis
                by (simp add: abort_unlinked same_table_refl)
            qed
          qed
        qed
      qed
    qed
  qed
qed


lemma auto_get_domain_loop_skip:
  "\<not> auto_domain hwpt \<or> \<not> hwpt_lockable hwpt \<Longrightarrow>
     auto_get_domain_loop e idev ((hid, hwpt) # rest) s =
       (case auto_get_domain_loop e idev rest s of (r, rest', s') \<Rightarrow> (r, (hid, hwpt) # rest', s'))"
  by auto

lemma auto_get_domain_loop_try:
  "auto_domain hwpt \<Longrightarrow> hwpt_lockable hwpt \<Longrightarrow>
   iommufd_hw_pagetable_attach e hid hwpt idev s = (rc, hwpt', s1) \<Longrightarrow>
     auto_get_domain_loop e idev ((hid, hwpt) # rest) s =
       (if rc = Some EINVAL
        then (case auto_get_domain_loop e idev rest s1 of
                (r, rest', s') \<Rightarrow> (r, (hid, hwpt') # rest', s'))
        else (Some (rc, hid), (hid, hwpt') # rest, s1))"
  by simp

lemma auto_get_domain_loop_append:
  "auto_get_domain_loop e idev pre s = (None, pre', s0) \<Longrightarrow>
     auto_get_domain_loop e idev (pre @ l) s =
       (case auto_get_domain_loop e idev l s0 of (r, l', s') \<Rightarrow> (r, pre' @ l', s'))"
proof (induction pre arbitrary: s pre')
  case Nil
  then show ?case by (auto split: prod.splits)
next
  case (Cons p pre)
  obtain hid hwpt where p: "p = (hid, hwpt)" by (cases p)
  show ?case
  proof (cases "\<not> auto_domain hwpt \<or> \<not> hwpt_lockable hwpt")
    case True
    note sk = auto_get_domain_loop_skip [OF True]
    obtain r1 pre1 s1 where r: "auto_get_domain_loop e idev pre s = (r1, pre1, s1)"
      by (cases "auto_get_domain_loop e idev pre s")
    from Cons.prems have "r1 = None" "pre' = (hid, hwpt) # pre1" "s1 = s0"
      unfolding p sk r by simp_all
    with r have r': "auto_get_domain_loop e idev pre s = (None, pre1, s0)" by simp
    show ?thesis
      unfolding p append_Cons sk Cons.IH [OF r'] \<open>pre' = (hid, hwpt) # pre1\<close>
      by (simp split: prod.splits)
  next
    case False
    then have c: "auto_domain hwpt" "hwpt_lockable hwpt" by simp_all
    obtain rc hwpt' s1 where at: "iommufd_hw_pagetable_attach e hid hwpt idev s = (rc, hwpt', s1)"
      by (cases "iommufd_hw_pagetable_attach e hid hwpt idev s")
    note tr = auto_get_domain_loop_try [OF c at]
    obtain r1 pre1 s2 where r: "auto_get_domain_loop e idev pre s1 = (r1, pre1, s2)"
      by (cases "auto_get_domain_loop e idev pre s1")
    from Cons.prems have rc: "rc = Some EINVAL"
      unfolding p tr by (auto split: if_splits)
    from Cons.prems have "r1 = None" "pre' = (hid, hwpt') # pre1" "s2 = s0"
      unfolding p tr r rc by simp_all
    with r have r': "auto_get_domain_loop e idev pre s1 = (None, pre1, s0)" by simp
    show ?thesis
      unfolding p append_Cons tr rc Cons.IH [OF r'] \<open>pre' = (hid, hwpt') # pre1\<close>
      by (simp split: prod.splits)
  qed
qed

lemma auto_get_domain_candidate:
  assumes l: "hwpt_list s = pre @ (hid, hwpt) # rest"
    and pre: "auto_get_domain_loop e idev pre s = (None, pre', s0)"
    and cand: "auto_domain hwpt" "hwpt_lockable hwpt"
    and at: "iommufd_hw_pagetable_attach e hid hwpt idev s0 = (rc, hwpt', s1)"
  shows "(rc = Some EINVAL \<longrightarrow>
            auto_get_domain_loop e idev (hwpt_list s) s =
              (case auto_get_domain_loop e idev rest s1 of
                 (r, rest', s') \<Rightarrow> (r, pre' @ (hid, hwpt') # rest', s'))) \<and>
         (rc \<noteq> Some EINVAL \<longrightarrow>
            iommufd_device_auto_get_domain e idev s =
              (rc, Some hid, s1\<lparr>hwpt_list := pre' @ (hid, hwpt') # rest\<rparr>))"
  unfolding iommufd_device_auto_get_domain_def l
    auto_get_domain_loop_append [OF pre] auto_get_domain_loop_try [OF cand at]
  by (simp split: prod.splits)

lemma auto_get_domain_alloc:
  assumes "auto_get_domain_loop e idev (hwpt_list s) s = (None, l', s2)"
  shows "iommufd_device_auto_get_domain e idev s =
     (case iommufd_hw_pagetable_alloc e idev None False True (s2\<lparr>hwpt_list := l'\<rparr>) of
        (Inl err, s3) \<Rightarrow> (Some err, None, s3)
      | (Inr (nid, nh), s3) \<Rightarrow>
          (None, Some nid,
           s3\<lparr>hwpt_list := map (\<lambda>(i, h). if i = nid
                 then (i, h\<lparr>auto_domain := True, hwpt_lockable := True\<rparr>) else (i, h))
               (hwpt_list s3)\<rparr>))"
  using assms by (simp add: iommufd_device_auto_get_domain_def)

lemma auto_get_domain_loop_Some:
  "auto_get_domain_loop e idev l s = (Some (rc, hid), l', s') \<Longrightarrow>
     rc \<noteq> Some EINVAL \<and> (\<exists>h. (hid, h) \<in> set l \<and> auto_domain h \<and> hwpt_lockable h)"
proof (induction l arbitrary: s l' s')
  case Nil
  then show ?case by simp
next
  case (Cons p l)
  obtain i hwpt where p: "p = (i, hwpt)" by (cases p)
  show ?case
  proof (cases "\<not> auto_domain hwpt \<or> \<not> hwpt_lockable hwpt")
    case True
    obtain r rest' s1 where rec: "auto_get_domain_loop e idev l s = (r, rest', s1)"
      by (cases "auto_get_domain_loop e idev l s")
    from Cons.prems have "r = Some (rc, hid)"
      unfolding p auto_get_domain_loop_skip [OF True] rec by simp
    with rec Cons.IH show ?thesis by fastforce
  next
    case False
    then have c: "auto_domain hwpt" "hwpt_lockable hwpt" by simp_all
    obtain rc1 hwpt' s1 where at: "iommufd_hw_pagetable_attach e i hwpt idev s = (rc1, hwpt', s1)"
      by (cases "iommufd_hw_pagetable_attach e i hwpt idev s")
    note unf = auto_get_domain_loop_try [OF c at]
    show ?thesis
    proof (cases "rc1 = Some EINVAL")
      case True
      obtain r rest' s2 where rec: "auto_get_domain_loop e idev l s1 = (r, rest', s2)"
        by (cases "auto_get_domain_loop e idev l s1")
      from Cons.prems have "r = Some (rc, hid)"
        unfolding p unf rec using True by simp
      with rec Cons.IH show ?thesis by fastforce
    next
      case False
      from Cons.prems have "rc = rc1" "hid = i"
        unfolding p unf using False by simp_all
      with False c p show ?thesis by auto
    qed
  qed
qed

lemma reserve_regions_ok:
  "\<forall>(start, lst, m)\<in>set rs. \<forall>a\<in>set (area_itree t). \<not> (node_start a \<le> lst \<and> start \<le> node_last a) \<Longrightarrow>
     \<exists>t' msi'. iopt_reserve_regions rs owner t msi = (None, t', msi')"
proof (induction rs arbitrary: t msi)
  case Nil
  then show ?case by simp
next
  case (Cons r rs)
  obtain start lst m where r: "r = (start, lst, m)" by (cases r)
  let ?t1 = "t\<lparr>reserved_itree := reserved_itree t @ [(start, lst, owner)]\<rparr>"
  from Cons.prems have no: "\<not> (\<exists>a\<in>set (area_itree t). node_start a \<le> lst \<and> start \<le> node_last a)"
    by (auto simp: r)
  from Cons.prems
  have "\<forall>(start, lst, m)\<in>set rs. \<forall>a\<in>set (area_itree ?t1). \<not> (node_start a \<le> lst \<and> start \<le> node_last a)"
    by simp
  from Cons.IH [OF this, of "if m then start else msi"] no show ?case
    by (simp add: r)
qed

lemma enforce_resv_ok:
  assumes "\<forall>(start, lst, m)\<in>set (resv_regions e d). \<forall>a\<in>set (area_itree t).
      \<not> (node_start a \<le> lst \<and> start \<le> node_last a)"
  shows "\<exists>t' msi'. iopt_table_enforce_dev_resv_regions e t d msi = (None, t', msi')"
proof -
  from reserve_regions_ok [OF assms, of d msi] obtain t' msi' where
    "iopt_reserve_regions (resv_regions e d) d t msi = (None, t', msi')"
    by blast
  then show ?thesis by (simp add: iopt_table_enforce_dev_resv_regions_def)
qed

lemma attach_ok:
  assumes g: "group_hwpt (igroup s) = None"
    and cc: "dev_enforce_cache_coherency idev \<longrightarrow> enforce_cc_op e (hwpt_domain hwpt) = Some True"
    and rs: "\<forall>(start, lst, m)\<in>set (resv_regions e (dev idev)). \<forall>a\<in>set (area_itree (ioas_iopt s)).
      \<not> (node_start a \<le> lst \<and> start \<le> node_last a)"
    and msi: "\<forall>base. get_msi_cookie e (hwpt_domain hwpt) base = None"
    and ag: "attach_group e (hwpt_domain hwpt) = None"
  shows "\<exists>hwpt' s'. iommufd_hw_pagetable_attach e hid hwpt idev s = (None, hwpt', s')"
proof -
  obtain r1 h1 where c: "(if dev_enforce_cache_coherency idev then iommufd_hw_pagetable_enforce_cc e hwpt
               else (None, hwpt)) = (r1, h1)"
    by (cases "if dev_enforce_cache_coherency idev then iommufd_hw_pagetable_enforce_cc e hwpt
               else (None, hwpt)")
  with cc have r1: "r1 = None" and d1: "hwpt_domain h1 = hwpt_domain hwpt"
    by (auto simp: iommufd_hw_pagetable_enforce_cc_def Let_def split: if_splits)
  from enforce_resv_ok [OF rs, of "sw_msi_start (igroup s)"] obtain t1 m1 where
    er: "iopt_table_enforce_dev_resv_regions e (ioas_iopt s) (dev idev) (sw_msi_start (igroup s))
        = (None, t1, m1)"
    by blast
  obtain r2 h2 where sm: "iommufd_group_setup_msi e ((igroup s)\<lparr>sw_msi_start := m1\<rparr>) h1 = (r2, h2)"
    by (cases "iommufd_group_setup_msi e ((igroup s)\<lparr>sw_msi_start := m1\<rparr>) h1")
  with msi d1 have r2: "r2 = None" and d2: "hwpt_domain h2 = hwpt_domain hwpt"
    by (auto simp: iommufd_group_setup_msi_def split: if_splits option.splits)
  show ?thesis
    using g c r1 er sm r2 d2 ag
    by (simp add: iommufd_hw_pagetable_attach_def Let_def)
qed

lemma fill_areas_ok:
  "\<forall>a\<in>set as. fill_fault e d a = None \<Longrightarrow>
     \<exists>fl s'. iopt_fill_areas e d as filled s = (None, fl, s')"
proof (induction as arbitrary: filled s)
  case Nil
  then show ?case by simp
next
  case (Cons a as)
  then have f: "fill_fault e d a = None" and r: "\<forall>a\<in>set as. fill_fault e d a = None" by simp_all
  from Cons.IH [OF r, of "filled @ [a]" "s\<lparr>domain_entries := (domain_entries s)
            (d := add_mset (node_start a, node_last a) (domain_entries s d))\<rparr>"] f
  show ?case
    by (simp add: fill_domain_def)
qed

lemma fill_areas_None:
  "iopt_fill_areas e d as filled s = (None, filled', s') \<Longrightarrow> filled' = filled @ as"
proof (induction as arbitrary: filled s)
  case Nil
  then show ?case by simp
next
  case (Cons a as)
  show ?case
  proof (cases "fill_fault e d a")
    case (Some err)
    with Cons.prems show ?thesis by (simp add: fill_domain_def)
  next
    case None
    with Cons.prems have "iopt_fill_areas e d as (filled @ [a])
        (s\<lparr>domain_entries := (domain_entries s)
            (d := add_mset (node_start a, node_last a) (domain_entries s d))\<rparr>) = (None, filled', s')"
      by (simp add: fill_domain_def)
    from Cons.IH [OF this] show ?thesis by simp
  qed
qed

lemma add_domain_success:
  assumes "iopt_table_add_domain e d s = (None, s')"
  shows "s' = s\<lparr>domain_entries := (domain_entries s)
            (d := domain_entries s d + mset (map (\<lambda>a. (node_start a, node_last a)) (area_itree (ioas_iopt s)))),
          ioas_iopt := (ioas_iopt s)\<lparr>domains := domains (ioas_iopt s) @ [d]\<rparr>\<rparr>"
proof -
  from assms have no: "\<not> (\<exists>a\<in>set (area_itree (ioas_iopt s)). domain_incompatible e d a)"
    by (auto simp: iopt_table_add_domain_def split: if_splits)
  obtain rc filled s1 where f: "iopt_fill_areas e d (area_itree (ioas_iopt s)) [] s = (rc, filled, s1)"
    by (cases "iopt_fill_areas e d (area_itree (ioas_iopt s)) [] s")
  from assms no f have rc: "rc = None"
    and s': "s' = s1\<lparr>ioas_iopt := (ioas_iopt s1)\<lparr>domains := domains (ioas_iopt s1) @ [d]\<rparr>\<rparr>"
    by (cases rc; simp add: iopt_table_add_domain_def)+
  from fill_areas_None [OF f [unfolded rc]] have fl: "filled = area_itree (ioas_iopt s)" by simp
  from fill_areas_state [OF f] fl have
    s1: "s1 = s\<lparr>domain_entries := (domain_entries s)
          (d := domain_entries s d + mset (map (\<lambda>a. (node_start a, node_last a)) (area_itree (ioas_iopt s))))\<rparr>"
    by simp
  from s1 have i: "ioas_iopt s1 = ioas_iopt s" by simp
  show ?thesis unfolding s' i by (subst s1) simp
qed

lemma add_domain_ok:
  assumes "\<forall>a\<in>set (area_itree (ioas_iopt s)). \<not> domain_incompatible e d a \<and> fill_fault e d a = None"
  shows "\<exists>s'. iopt_table_add_domain e d s = (None, s')"
proof -
  from assms have "\<forall>a\<in>set (area_itree (ioas_iopt s)). fill_fault e d a = None" by blast
  from fill_areas_ok [OF this, of "[]" s] obtain fl s1 where
    "iopt_fill_areas e d (area_itree (ioas_iopt s)) [] s = (None, fl, s1)"
    by auto
  with assms show ?thesis
    by (simp add: iopt_table_add_domain_def)
qed


lemma alloc_auto_unfold:
  assumes oa: "object_alloc e = Inr hid"
    and da: "(if has_domain_alloc_user e then domain_alloc_user e else domain_alloc e) = Some d"
    and h0: "hwpt0 = \<lparr>hwpt_domain = d, hwpt_parent = None,
          enforce_cache_coherency = False, msi_cookie = False,
          auto_domain = False, hwpt_lockable = False, hwpt_item_linked = False\<rparr>"
  shows "iommufd_hw_pagetable_alloc e idev None False True s =
     (if domain_type_of e d \<noteq> IOMMU_DOMAIN_UNMANAGED
      then (Inl EINVAL, iommufd_hw_pagetable_abort hid hwpt0 (s\<lparr>kwarned := True\<rparr>))
      else
        (case (if dev_enforce_cache_coherency idev
               then iommufd_hw_pagetable_enforce_cc e hwpt0 else (None, hwpt0)) of
           (Some err, hwpt1) \<Rightarrow>
             (Inl err, iommufd_hw_pagetable_abort hid hwpt1 (s\<lparr>kwarned := True\<rparr>))
         | (None, hwpt1) \<Rightarrow>
             (case iommufd_hw_pagetable_attach e hid hwpt1 idev s of
                (Some err, hwpt2, s1) \<Rightarrow> (Inl err, iommufd_hw_pagetable_abort hid hwpt2 s1)
              | (None, hwpt2, s1) \<Rightarrow>
                  (case iommufd_hw_pagetable_link_ioas e hid hwpt2 s1 of
                     (Some err, hwpt3, s2) \<Rightarrow>
                       (Inl err, iommufd_hw_pagetable_abort hid hwpt3
                                   (iommufd_hw_pagetable_detach idev s2))
                   | (None, hwpt3, s2) \<Rightarrow> (Inr (hid, hwpt3), s2)))))"
  unfolding iommufd_hw_pagetable_alloc_def h0 Let_def
  by (simp only: oa da sum.case option.case simp_thms if_True if_False option.map)

lemma alloc_success:
  assumes al: "iommufd_hw_pagetable_alloc e idev None False True s = (Inr (nid, nh), s')"
  shows "object_alloc e = Inr nid \<and>
     (if has_domain_alloc_user e then domain_alloc_user e else domain_alloc e) = Some (hwpt_domain nh) \<and>
     hwpt_item_linked nh \<and> hwpt_parent nh = None \<and>
     hwpt_list s' = hwpt_list s @ [(nid, nh)] \<and>
     domains (ioas_iopt s') = domains (ioas_iopt s) @ [hwpt_domain nh] \<and>
     area_itree (ioas_iopt s') = area_itree (ioas_iopt s) \<and>
     domain_entries s' = (domain_entries s)
       (hwpt_domain nh := domain_entries s (hwpt_domain nh) +
          mset (map (\<lambda>a. (node_start a, node_last a)) (area_itree (ioas_iopt s)))) \<and>
     device_list (igroup s') = device_list (igroup s) @ [idev_id idev] \<and>
     (device_list (igroup s) = [] \<longrightarrow> group_hwpt (igroup s') = Some nid)"
proof -
  from al obtain hid where oa: "object_alloc e = Inr hid"
    by (cases "object_alloc e") (auto simp: iommufd_hw_pagetable_alloc_def split: if_splits)
  from al oa obtain d where
    da: "(if has_domain_alloc_user e then domain_alloc_user e else domain_alloc e) = Some d"
    by (cases "if has_domain_alloc_user e then domain_alloc_user e else domain_alloc e")
      (auto simp: iommufd_hw_pagetable_alloc_def split: if_splits)
  define hwpt0 where "hwpt0 = \<lparr>hwpt_domain = d, hwpt_parent = None,
          enforce_cache_coherency = False, msi_cookie = False,
          auto_domain = False, hwpt_lockable = False, hwpt_item_linked = False\<rparr>"
  note unf = alloc_auto_unfold [OF oa da hwpt0_def, of idev s]
  obtain r1 hwpt1 where cc: "(if dev_enforce_cache_coherency idev
      then iommufd_hw_pagetable_enforce_cc e hwpt0 else (None, hwpt0)) = (r1, hwpt1)"
    by (cases "if dev_enforce_cache_coherency idev
      then iommufd_hw_pagetable_enforce_cc e hwpt0 else (None, hwpt0)")
  have p1: "hwpt_domain hwpt1 = d \<and> hwpt_parent hwpt1 = None \<and> \<not> hwpt_item_linked hwpt1"
    using cc by (auto simp: hwpt0_def split: if_splits dest: enforce_cc_linked)
  obtain r2 hwpt2 s1 where at: "iommufd_hw_pagetable_attach e hid hwpt1 idev s = (r2, hwpt2, s1)"
    by (cases "iommufd_hw_pagetable_attach e hid hwpt1 idev s")
  from attach_linked [OF at] p1
  have p2: "hwpt_domain hwpt2 = d \<and> hwpt_parent hwpt2 = None \<and> \<not> hwpt_item_linked hwpt2"
    by simp
  obtain r3 hwpt3 s2 where lk: "iommufd_hw_pagetable_link_ioas e hid hwpt2 s1 = (r3, hwpt3, s2)"
    by (cases "iommufd_hw_pagetable_link_ioas e hid hwpt2 s1")
  from al unf cc at lk have ty: "domain_type_of e d = IOMMU_DOMAIN_UNMANAGED"
    and r1: "r1 = None" and r2: "r2 = None" and r3: "r3 = None"
    and res: "nid = hid" "nh = hwpt3" "s' = s2"
    by (auto split: if_splits option.splits)
  obtain s3 where ad: "iopt_table_add_domain e d s1 = (None, s3)"
    and h3: "hwpt3 = hwpt2\<lparr>hwpt_item_linked := True\<rparr>"
    and s2: "s2 = s3\<lparr>hwpt_list := hwpt_list s3 @ [(hid, hwpt3)]\<rparr>"
    using lk r3 p2
    by (auto simp: iommufd_hw_pagetable_link_ioas_def split: prod.splits option.splits)
  note s3 = add_domain_success [OF ad]
  note a = attach_success [OF at [unfolded r2]]
  from a have ar: "area_itree (ioas_iopt s1) = area_itree (ioas_iopt s)"
    and dm: "domains (ioas_iopt s1) = domains (ioas_iopt s)"
    by (auto simp: iopt_remove_reserved_iova_def dest: arg_cong [where f = area_itree]
        arg_cong [where f = domains])
  have gr: "igroup s2 = igroup s1" and hl: "hwpt_list s2 = hwpt_list s1 @ [(hid, hwpt3)]"
    and de: "domain_entries s2 = (domain_entries s1)
       (d := domain_entries s1 d + mset (map (\<lambda>a. (node_start a, node_last a)) (area_itree (ioas_iopt s1))))"
    and io: "ioas_iopt s2 = (ioas_iopt s1)\<lparr>domains := domains (ioas_iopt s1) @ [d]\<rparr>"
    unfolding s2 by (subst s3, simp)+
  show ?thesis
    using oa da res h3 p2 gr hl de io a ar dm by simp
qed

lemma new_hwpt_enforce_cc:
  assumes "dev_enforce_cache_coherency idev \<longrightarrow> enforce_cc_op e (hwpt_domain hwpt0) = Some True"
  shows "\<exists>hwpt1. (if dev_enforce_cache_coherency idev
      then iommufd_hw_pagetable_enforce_cc e hwpt0 else (None, hwpt0)) = (None, hwpt1) \<and>
      hwpt_domain hwpt1 = hwpt_domain hwpt0 \<and> hwpt_parent hwpt1 = hwpt_parent hwpt0"
  using assms by (auto simp: iommufd_hw_pagetable_enforce_cc_def Let_def)

lemma alloc_succeeds:
  assumes ok: "new_domain_ok e idev s nid d"
  shows "\<exists>nh s'. iommufd_hw_pagetable_alloc e idev None False True s = (Inr (nid, nh), s')"
proof -
  from ok have oa: "object_alloc e = Inr nid"
    and da: "(if has_domain_alloc_user e then domain_alloc_user e else domain_alloc e) = Some d"
    and ty: "domain_type_of e d = IOMMU_DOMAIN_UNMANAGED"
    and ecc: "dev_enforce_cache_coherency idev \<longrightarrow> enforce_cc_op e d = Some True"
    and g: "group_hwpt (igroup s) = None"
    and rs: "\<forall>(start, lst, m)\<in>set (resv_regions e (dev idev)). \<forall>a\<in>set (area_itree (ioas_iopt s)).
         \<not> (node_start a \<le> lst \<and> start \<le> node_last a)"
    and msi: "\<forall>base. get_msi_cookie e d base = None"
    and ag: "attach_group e d = None"
    and fl: "\<forall>a\<in>set (area_itree (ioas_iopt s)). \<not> domain_incompatible e d a \<and> fill_fault e d a = None"
    by (simp_all add: new_domain_ok_def)
  define hwpt0 where "hwpt0 = \<lparr>hwpt_domain = d, hwpt_parent = None,
          enforce_cache_coherency = False, msi_cookie = False,
          auto_domain = False, hwpt_lockable = False, hwpt_item_linked = False\<rparr>"
  note unf = alloc_auto_unfold [OF oa da hwpt0_def, of idev s]
  have d0: "hwpt_domain hwpt0 = d" "hwpt_parent hwpt0 = None" by (simp_all add: hwpt0_def)
  from new_hwpt_enforce_cc [of idev e hwpt0] ecc d0 obtain hwpt1 where
    cc: "(if dev_enforce_cache_coherency idev
      then iommufd_hw_pagetable_enforce_cc e hwpt0 else (None, hwpt0)) = (None, hwpt1)"
    and d1: "hwpt_domain hwpt1 = d" "hwpt_parent hwpt1 = None"
    by auto
  from attach_ok [of s idev e hwpt1 nid] g ecc rs msi ag d1 obtain hwpt2 s1 where
    at: "iommufd_hw_pagetable_attach e nid hwpt1 idev s = (None, hwpt2, s1)"
    by auto
  from attach_linked [OF at] d1 have d2: "hwpt_domain hwpt2 = d" "hwpt_parent hwpt2 = None"
    by simp_all
  from attach_success [OF at]
  have ar: "area_itree (ioas_iopt s1) = area_itree (ioas_iopt s)"
    by (auto simp: iopt_remove_reserved_iova_def dest: arg_cong [where f = area_itree])
  from add_domain_ok [of s1 e d] fl ar obtain s3 where ad: "iopt_table_add_domain e d s1 = (None, s3)"
    by auto
  have "\<exists>hwpt3 s2. iommufd_hw_pagetable_link_ioas e nid hwpt2 s1 = (None, hwpt3, s2)"
    using ad d2 by (simp add: iommufd_hw_pagetable_link_ioas_def)
  then obtain hwpt3 s2 where lk: "iommufd_hw_pagetable_link_ioas e nid hwpt2 s1 = (None, hwpt3, s2)"
    by blast
  show ?thesis
    unfolding unf using ty cc at lk by simp
qed


lemma same_table_trans:
  "same_table d s s1 \<Longrightarrow> same_table d s1 s2 \<Longrightarrow> same_table d s s2"
  by (auto simp: same_table_def remove_reserved_idem)

lemma auto_get_domain_loop_None:
  "auto_get_domain_loop e idev l s = (None, l', s') \<Longrightarrow> same_table (dev idev) s s'"
proof (induction l arbitrary: s l')
  case Nil
  then show ?case by (simp add: same_table_refl)
next
  case (Cons p l)
  obtain i hwpt where p: "p = (i, hwpt)" by (cases p)
  show ?case
  proof (cases "\<not> auto_domain hwpt \<or> \<not> hwpt_lockable hwpt")
    case True
    obtain r rest' s1 where rec: "auto_get_domain_loop e idev l s = (r, rest', s1)"
      by (cases "auto_get_domain_loop e idev l s")
    from Cons.prems have "r = None" "s1 = s'"
      unfolding p auto_get_domain_loop_skip [OF True] rec by simp_all
    with rec Cons.IH show ?thesis by simp
  next
    case False
    then have c: "auto_domain hwpt" "hwpt_lockable hwpt" by simp_all
    obtain rc1 hwpt' s1 where at: "iommufd_hw_pagetable_attach e i hwpt idev s = (rc1, hwpt', s1)"
      by (cases "iommufd_hw_pagetable_attach e i hwpt idev s")
    note unf = auto_get_domain_loop_try [OF c at]
    from Cons.prems have rc1: "rc1 = Some EINVAL"
      unfolding p unf by (auto split: if_splits)
    obtain r rest' s2 where rec: "auto_get_domain_loop e idev l s1 = (r, rest', s2)"
      by (cases "auto_get_domain_loop e idev l s1")
    from Cons.prems have "r = None" "s2 = s'"
      unfolding p unf rec using rc1 by simp_all
    with rec Cons.IH have "same_table (dev idev) s1 s'" by simp
    with attach_failure [OF at [unfolded rc1]] show ?thesis
      by (rule same_table_trans)
  qed
qed

lemma new_domain_ok_same:
  assumes "same_table dv s s'" and "new_domain_ok e idev s nid d"
  shows "new_domain_ok e idev (s'\<lparr>hwpt_list := l\<rparr>) nid d"
proof -
  from assms(1) have "area_itree (ioas_iopt s') = area_itree (ioas_iopt s)"
    by (auto simp: same_table_def iopt_remove_reserved_iova_def)
  with assms show ?thesis
    by (simp add: new_domain_ok_def same_table_def)
qed

lemma auto_get_domain_new:
  assumes loop: "auto_get_domain_loop e idev (hwpt_list s) s = (None, l', s2)"
    and ok: "new_domain_ok e idev s nid d"
  shows "\<exists>nh s4. iommufd_device_auto_get_domain e idev s = (None, Some nid, s4) \<and>
     hwpt_list s4 = map (\<lambda>(i, h). if i = nid
          then (i, h\<lparr>auto_domain := True, hwpt_lockable := True\<rparr>) else (i, h)) l' @ [(nid, nh)] \<and>
     auto_domain nh \<and> hwpt_lockable nh \<and> hwpt_item_linked nh \<and> hwpt_domain nh = d \<and>
     domains (ioas_iopt s4) = domains (ioas_iopt s) @ [d] \<and>
     area_itree (ioas_iopt s4) = area_itree (ioas_iopt s) \<and>
     device_list (igroup s4) = [idev_id idev] \<and> group_hwpt (igroup s4) = Some nid \<and>
     domain_entries s4 d = domain_entries s d +
       mset (map (\<lambda>a. (node_start a, node_last a)) (area_itree (ioas_iopt s)))"
proof -
  note st = auto_get_domain_loop_None [OF loop]
  let ?s = "s2\<lparr>hwpt_list := l'\<rparr>"
  from new_domain_ok_same [OF st ok] have ok2: "new_domain_ok e idev ?s nid d" .
  from alloc_succeeds [OF ok2] obtain nh s3 where
    al: "iommufd_hw_pagetable_alloc e idev None False True ?s = (Inr (nid, nh), s3)"
    by blast
  note a = alloc_success [OF al]
  from ok have da: "(if has_domain_alloc_user e then domain_alloc_user e else domain_alloc e) = Some d"
    and g: "group_hwpt (igroup s) = None" "device_list (igroup s) = []"
    by (simp_all add: new_domain_ok_def)
  from a da have d: "hwpt_domain nh = d" by simp
  from st have ar: "area_itree (ioas_iopt s2) = area_itree (ioas_iopt s)"
    and dm: "domains (ioas_iopt s2) = domains (ioas_iopt s)"
    and de: "domain_entries s2 = domain_entries s"
    and dl: "device_list (igroup s2) = device_list (igroup s)"
    by (auto simp: same_table_def iopt_remove_reserved_iova_def)
  let ?f = "\<lambda>(i, h). if i = nid
          then (i, h\<lparr>auto_domain := True, hwpt_lockable := True\<rparr>) else (i, h)"
  let ?s4 = "s3\<lparr>hwpt_list := map ?f (hwpt_list s3)\<rparr>"
  have res: "iommufd_device_auto_get_domain e idev s = (None, Some nid, ?s4)"
    by (simp add: iommufd_device_auto_get_domain_def loop al)
  show ?thesis
    apply (rule exI [of _ "nh\<lparr>auto_domain := True, hwpt_lockable := True\<rparr>"])
    apply (rule exI [of _ ?s4])
    using res a d ar dm de dl g by simp
qed

lemma auto_get_domain_new_used:
  assumes loop: "auto_get_domain_loop e idev (hwpt_list s) s = (None, l', s2)"
    and res: "iommufd_device_auto_get_domain e idev s = (rc, Some nid, s4)"
  shows "rc = None \<and> object_alloc e = Inr nid \<and>
     (\<exists>nh. (nid, nh) \<in> set (hwpt_list s4) \<and> auto_domain nh \<and>
        (if has_domain_alloc_user e then domain_alloc_user e else domain_alloc e) = Some (hwpt_domain nh) \<and>
        hwpt_domain nh \<in> set (domains (ioas_iopt s4)) \<and>
        idev_id idev \<in> set (device_list (igroup s4)))"
proof -
  let ?s = "s2\<lparr>hwpt_list := l'\<rparr>"
  obtain r s3 where al: "iommufd_hw_pagetable_alloc e idev None False True ?s = (r, s3)"
    by (cases "iommufd_hw_pagetable_alloc e idev None False True ?s")
  from res loop al obtain nh where r: "r = Inr (nid, nh)" and rc: "rc = None"
    and s4: "s4 = s3\<lparr>hwpt_list := map (\<lambda>(i, h). if i = nid
          then (i, h\<lparr>auto_domain := True, hwpt_lockable := True\<rparr>) else (i, h)) (hwpt_list s3)\<rparr>"
    by (cases r) (auto simp: iommufd_device_auto_get_domain_def)
  note a = alloc_success [OF al [unfolded r]]
  show ?thesis
    apply (intro conjI)
      apply (rule rc)
     apply (simp add: a)
    apply (rule exI [of _ "nh\<lparr>auto_domain := True, hwpt_lockable := True\<rparr>"])
    using a by (simp add: s4)
qed

section \<open>Claims\<close>

text \<open>
  C2. A call of \<open>iommufd_access_pin_pages\<close> that returns an error, also after it has
  pinned the pages of some Areas, leaves the accesses of the Pages Stores (and the
  memory) as they were before the call: the \<open>err_remove\<close> path removes every access
  that the call added.
\<close>

theorem pin_pages_error_restores_accesses:
  assumes "iommufd_access_pin_pages cfg fault access iopt iova len flags s = (Inl err, s')"
  shows "accesses s' = accesses s \<and> mem s' = mem s"
  using pin_pages_failure_state [OF assms] by (simp add: WARN_ON_def)

text \<open>
  The witness: a write request over two Areas, the second read-only. The first Area is
  pinned, the second fails with \<open>EPERM\<close>, and no access is left.
\<close>

theorem pin_pages_error_restores_accesses_witness:
  "\<exists>s'. iommufd_access_pin_pages True no_pin_fault ex_access ex_iopt 0x1000 0x2000 1 ex_state
          = (Inl EPERM, s') \<and> accesses s' = {#}"
proof -
  have "fst (iommufd_access_pin_pages True no_pin_fault ex_access ex_iopt 0x1000 0x2000 1 ex_state)
      = Inl EPERM"
    by (simp add: access_defs ex_defs)
  then obtain s' where r:
    "iommufd_access_pin_pages True no_pin_fault ex_access ex_iopt 0x1000 0x2000 1 ex_state
      = (Inl EPERM, s')"
    by (cases "iommufd_access_pin_pages True no_pin_fault ex_access ex_iopt 0x1000 0x2000 1 ex_state")
      simp
  from pin_pages_error_restores_accesses [OF r] have "accesses s' = {#}"
    by (simp add: ex_state_def)
  with r show ?thesis by blast
qed

text \<open>
  C6. An unpin whose \<open>(iova, length)\<close> is that of a successful
  \<open>iommufd_access_pin_pages\<close> removes exactly the accesses the pin added: the state is
  the one before the pin, and no assertion fires. An unpin with a zero length, an
  overflowing range or a range that contiguous Areas do not fully cover fires a
  \<open>WARN_ON\<close> assertion; the function has no error return.
\<close>

theorem unpin_pages_exact_inverse:
  "(iommufd_access_pin_pages cfg fault access iopt iova len flags s = (Inr out, s1) \<longrightarrow>
      iommufd_access_unpin_pages access iopt iova len s1 = s) \<and>
   (len = 0 \<or> iova + (len - 1) < iova \<or>
    \<not> iopt_area_contig_done (snd (contig_run (iopt_area_contig_init iopt iova (iova + (len - 1))))) \<longrightarrow>
      warned (iommufd_access_unpin_pages access iopt iova len s2))"
  using unpin_pages_after_pin unpin_pages_warns by blast

text \<open>
  The witness: a read pin over both Areas of the example table and its unpin, and an
  unpin over a range with no Area.
\<close>

theorem unpin_pages_exact_inverse_witness:
  "iommufd_access_pin_pages True no_pin_fault ex_access ex_iopt 0x1000 0x2000 0 ex_state
     = (Inr [(0, 0), (1, 0)], ex_state\<lparr>accesses := {#(0, 0, 0), (1, 0, 0)#}\<rparr>) \<and>
   iommufd_access_unpin_pages ex_access ex_iopt 0x1000 0x2000
     (ex_state\<lparr>accesses := {#(0, 0, 0), (1, 0, 0)#}\<rparr>) = ex_state \<and>
   \<not> iopt_area_contig_done (snd (contig_run (iopt_area_contig_init ex_iopt 0x3000 (0x3000 + (0x1000 - 1))))) \<and>
   warned (iommufd_access_unpin_pages ex_access ex_iopt 0x3000 0x1000 ex_state)"
proof -
  have pin: "iommufd_access_pin_pages True no_pin_fault ex_access ex_iopt 0x1000 0x2000 0 ex_state
      = (Inr [(0, 0), (1, 0)], ex_state\<lparr>accesses := {#(0, 0, 0), (1, 0, 0)#}\<rparr>)"
    by (simp add: access_defs ex_defs)
  have hole: "\<not> iopt_area_contig_done
      (snd (contig_run (iopt_area_contig_init ex_iopt 0x3000 (0x3000 + (0x1000 - 1)))))"
    by (simp add: access_defs ex_defs)
  note inst = unpin_pages_exact_inverse [of True no_pin_fault ex_access ex_iopt _ _ 0 ex_state]
  from inst [of "0x1000" "0x2000" "[(0, 0), (1, 0)]" "ex_state\<lparr>accesses := {#(0, 0, 0), (1, 0, 0)#}\<rparr>"] pin
  have 1: "iommufd_access_unpin_pages ex_access ex_iopt 0x1000 0x2000
      (ex_state\<lparr>accesses := {#(0, 0, 0), (1, 0, 0)#}\<rparr>) = ex_state"
    by blast
  from inst [of "0x3000" "0x1000" _ _ ex_state] hole
  have 2: "warned (iommufd_access_unpin_pages ex_access ex_iopt 0x3000 0x1000 ex_state)"
    by blast
  from pin hole 1 2 show ?thesis by blast
qed

text \<open>
  C3. In a table whose Areas are in IOVA order and do not overlap, when an Area has
  \<open>prevent_access\<close> set, every \<open>iommufd_access_pin_pages\<close> and every
  \<open>iommufd_access_rw\<close> whose range \<open>[iova, iova + length - 1]\<close> intersects the Area
  returns an error, and the accesses of the Pages Stores are those before the call.
  The failing \<open>iommufd_access_rw\<close> has not touched the Area either: it has changed
  nothing, or it has done what a successful call does whose range ends before the Area
  starts.
\<close>

theorem draining_area_refuses_access:
  assumes "iopt_wf iopt" and "t \<in> set (area_itree iopt)" and "prevent_access t"
    and "node_start t \<le> iova + (len - 1)" and "iova \<le> node_last t"
  shows "(\<exists>err s'. iommufd_access_pin_pages cfg fault access iopt iova len flags s = (Inl err, s') \<and>
            accesses s' = accesses s) \<and>
         (\<exists>err data' s'. iommufd_access_rw rwfault access iopt iova data len flags s = (Some err, data', s') \<and>
            accesses s' = accesses s \<and>
            ((data', s') = (data, s) \<or>
             (\<exists>len'. len' \<noteq> 0 \<and> len' < len \<and> iova + (len' - 1) < node_start t \<and>
                iommufd_access_rw rwfault access iopt iova data len' flags s = (None, data', s'))))"
proof
  from pin_pages_draining_fails [OF assms, of cfg fault access flags s] obtain err s' where
    r: "iommufd_access_pin_pages cfg fault access iopt iova len flags s = (Inl err, s')"
    by (cases "iommufd_access_pin_pages cfg fault access iopt iova len flags s") auto
  from pin_pages_failure_state [OF r] have "accesses s' = accesses s"
    by (simp add: WARN_ON_def)
  with r show "\<exists>err s'. iommufd_access_pin_pages cfg fault access iopt iova len flags s = (Inl err, s') \<and>
      accesses s' = accesses s"
    by blast
next
  from access_rw_draining_fails [OF assms, of rwfault access data flags s] obtain err data' s' where
    r: "iommufd_access_rw rwfault access iopt iova data len flags s = (Some err, data', s')"
    by (cases "iommufd_access_rw rwfault access iopt iova data len flags s") auto
  from access_rw_accesses [OF r] have acc: "accesses s' = accesses s" by simp
  have pre: "(data', s') = (data, s) \<or>
      (\<exists>len'. len' \<noteq> 0 \<and> len' < len \<and> iova + (len' - 1) < node_start t \<and>
         iommufd_access_rw rwfault access iopt iova data len' flags s = (None, data', s'))"
  proof (cases "(data', s') = (data, s)")
    case True
    then show ?thesis by blast
  next
    case False
    from access_rw_error_prefix [OF r False] obtain len' where
      l: "len' \<noteq> 0" "len' < len"
      and ok: "iommufd_access_rw rwfault access iopt iova data len' flags s = (None, data', s')"
      by blast
    have "iova + (len' - 1) < node_start t"
    proof (rule ccontr)
      assume "\<not> iova + (len' - 1) < node_start t"
      then have i1: "node_start t \<le> iova + (len' - 1)" by simp
      from access_rw_draining_fails [OF assms(1) assms(2) assms(3) i1 assms(5),
          of rwfault access data flags s] ok
      show False by simp
    qed
    with l ok show ?thesis by blast
  qed
  with r acc show "\<exists>err data' s'. iommufd_access_rw rwfault access iopt iova data len flags s = (Some err, data', s') \<and>
      accesses s' = accesses s \<and>
      ((data', s') = (data, s) \<or>
       (\<exists>len'. len' \<noteq> 0 \<and> len' < len \<and> iova + (len' - 1) < node_start t \<and>
          iommufd_access_rw rwfault access iopt iova data len' flags s = (None, data', s')))"
    by blast
qed

text \<open>
  The witness: the second Area of the table is draining and writable, and a write of
  four bytes starts two bytes before it. The call fails with \<open>EINVAL\<close>; the two bytes
  of the first Area are written, the first byte of the draining Area is not, and the
  result is that of the write of two bytes.
\<close>

theorem draining_area_refuses_access_witness:
  "iopt_wf ex_iopt_teardown \<and> ex_area2_draining \<in> set (area_itree ex_iopt_teardown) \<and>
   prevent_access ex_area2_draining \<and>
   (\<exists>err s'. iommufd_access_pin_pages True no_pin_fault ex_access ex_iopt_teardown 0x1ffe 4 1 ex_state
        = (Inl err, s') \<and> accesses s' = accesses ex_state) \<and>
   (\<exists>data' s'. iommufd_access_rw no_rw_fault ex_access ex_iopt_teardown 0x1ffe (\<lambda>k. 0xAA) 4 1 ex_state
        = (Some EINVAL, data', s') \<and> accesses s' = accesses ex_state \<and>
      mem s' (0, 0xfff) = 0xAA \<and> mem s' (1, 0) = 0 \<and>
      iommufd_access_rw no_rw_fault ex_access ex_iopt_teardown 0x1ffe (\<lambda>k. 0xAA) 2 1 ex_state
        = (None, data', s'))"
proof -
  have wf: "iopt_wf ex_iopt_teardown"
    by (simp add: iopt_wf_def ex_defs)
  have t: "ex_area2_draining \<in> set (area_itree ex_iopt_teardown)"
    and dr: "prevent_access ex_area2_draining"
    by (simp_all add: ex_defs)
  have i1: "node_start ex_area2_draining \<le> 0x1ffe + (4 - 1)"
    and i2: "0x1ffe \<le> node_last ex_area2_draining"
    by (simp_all add: ex_defs)
  note inst = draining_area_refuses_access [OF wf t dr i1 i2, of True no_pin_fault ex_access 1
      ex_state no_rw_fault "\<lambda>k. 0xAA"]
  from inst have pin: "\<exists>err s'. iommufd_access_pin_pages True no_pin_fault ex_access
      ex_iopt_teardown 0x1ffe 4 1 ex_state = (Inl err, s') \<and> accesses s' = accesses ex_state"
    by blast
  from inst obtain err data' s' where
    r: "iommufd_access_rw no_rw_fault ex_access ex_iopt_teardown 0x1ffe (\<lambda>k. 0xAA) 4 1 ex_state
        = (Some err, data', s')"
    and acc: "accesses s' = accesses ex_state"
    by blast
  have "fst (iommufd_access_rw no_rw_fault ex_access ex_iopt_teardown 0x1ffe (\<lambda>k. 0xAA) 4 1 ex_state)
      = Some EINVAL"
    by (simp add: access_defs ex_defs)
  with r have err: "err = EINVAL" by simp
  have "mem (snd (snd (iommufd_access_rw no_rw_fault ex_access ex_iopt_teardown 0x1ffe (\<lambda>k. 0xAA) 4 1
      ex_state))) (0, 0xfff) = 0xAA"
    by (simp add: access_defs ex_defs)
  with r have m1: "mem s' (0, 0xfff) = 0xAA" by simp
  have "mem (snd (snd (iommufd_access_rw no_rw_fault ex_access ex_iopt_teardown 0x1ffe (\<lambda>k. 0xAA) 4 1
      ex_state))) (1, 0) = 0"
    by (simp add: access_defs ex_defs)
  with r have m2: "mem s' (1, 0) = 0" by simp
  have "iommufd_access_rw no_rw_fault ex_access ex_iopt_teardown 0x1ffe (\<lambda>k. 0xAA) 2 1 ex_state =
      (None, snd (iommufd_access_rw no_rw_fault ex_access ex_iopt_teardown 0x1ffe (\<lambda>k. 0xAA) 4 1 ex_state))"
    by (simp add: access_defs ex_defs)
  with r have short: "iommufd_access_rw no_rw_fault ex_access ex_iopt_teardown 0x1ffe (\<lambda>k. 0xAA) 2 1
      ex_state = (None, data', s')"
    by simp
  from wf t dr pin r err acc m1 m2 short show ?thesis by blast
qed

text \<open>
  C1, as the code has it. \<open>iommufd_access_pin_pages\<close> returns \<open>EINVAL\<close> for a zero
  length, \<open>EOVERFLOW\<close> when \<open>iova + length - 1\<close> wraps, and otherwise the errno of the
  first Area of the walk that fails its check: \<open>EINVAL\<close> for a draining or misaligned
  Area, \<open>EPERM\<close> for a missing permission, the Pages Store's errno when its pin fails.
  When every Area passes and the walk does not reach the end of the range the result is
  \<open>ENOENT\<close>, not \<open>EINVAL\<close>; otherwise the call succeeds and returns the pages. With
  \<open>CONFIG_IOMMUFD_TEST\<close> an access without pin support gets \<open>EINVAL\<close> first. In a
  table that satisfies the index invariant the walk reaches the end of the range exactly
  when the range is covered.
\<close>

theorem pin_pages_outcome:
  "fst (iommufd_access_pin_pages cfg fault access iopt iova len flags s) =
     (if cfg \<and> (iova_alignment access \<noteq> PAGE_SIZE \<or> \<not> ops_unmap access) then Inl EINVAL
      else if len = 0 then Inl EINVAL
      else if iova + (len - 1) < iova then Inl EOVERFLOW
      else case contig_run (iopt_area_contig_init iopt iova (iova + (len - 1))) of
        (w, e) \<Rightarrow>
          (case first_error (pin_check fault flags (iova + (len - 1))) w of
             Some err \<Rightarrow> Inl err
           | None \<Rightarrow>
               if iopt_area_contig_done e then Inr (concat (map (walk_frames (iova + (len - 1))) w))
               else Inl ENOENT)) \<and>
   (iopt_wf iopt \<and> iova \<le> iova + (len - 1) \<longrightarrow>
      iopt_area_contig_done (snd (contig_run (iopt_area_contig_init iopt iova (iova + (len - 1))))) =
      range_covered iopt iova (iova + (len - 1)))"
proof (intro conjI impI)
  show "fst (iommufd_access_pin_pages cfg fault access iopt iova len flags s) =
     (if cfg \<and> (iova_alignment access \<noteq> PAGE_SIZE \<or> \<not> ops_unmap access) then Inl EINVAL
      else if len = 0 then Inl EINVAL
      else if iova + (len - 1) < iova then Inl EOVERFLOW
      else case contig_run (iopt_area_contig_init iopt iova (iova + (len - 1))) of
        (w, e) \<Rightarrow>
          (case first_error (pin_check fault flags (iova + (len - 1))) w of
             Some err \<Rightarrow> Inl err
           | None \<Rightarrow>
               if iopt_area_contig_done e then Inr (concat (map (walk_frames (iova + (len - 1))) w))
               else Inl ENOENT))"
    by (rule pin_pages_result)
next
  assume "iopt_wf iopt \<and> iova \<le> iova + (len - 1)"
  then have 1: "iopt_wf iopt" and 2: "iova \<le> iova + (len - 1)" by blast+
  show "iopt_area_contig_done (snd (contig_run (iopt_area_contig_init iopt iova (iova + (len - 1))))) =
      range_covered iopt iova (iova + (len - 1))"
    by (rule contig_done_iff_covered [OF 1 2])
qed

text \<open>
  The witness: a range of the example table with no Area. The table satisfies the
  invariant, the range is not covered, and the call returns \<open>ENOENT\<close>.
\<close>

theorem pin_pages_outcome_witness:
  "iopt_wf ex_iopt \<and> (0x3000 :: ulong) \<le> 0x3000 + (0x1000 - 1) \<and>
   \<not> range_covered ex_iopt 0x3000 (0x3000 + (0x1000 - 1)) \<and>
   fst (iommufd_access_pin_pages True no_pin_fault ex_access ex_iopt 0x3000 0x1000 0 ex_state)
     = Inl ENOENT"
proof -
  have wf: "iopt_wf ex_iopt"
    by (simp add: iopt_wf_def ex_defs)
  have le: "(0x3000 :: ulong) \<le> 0x3000 + (0x1000 - 1)"
    by simp
  have nd: "\<not> iopt_area_contig_done
      (snd (contig_run (iopt_area_contig_init ex_iopt 0x3000 (0x3000 + (0x1000 - 1)))))"
    by (simp add: access_defs ex_defs)
  have r: "fst (iommufd_access_pin_pages True no_pin_fault ex_access ex_iopt 0x3000 0x1000 0 ex_state)
      = Inl ENOENT"
    by (simp add: access_defs ex_defs)
  from pin_pages_outcome [of True no_pin_fault ex_access ex_iopt "0x3000" "0x1000" 0 ex_state] wf le nd
  have "\<not> range_covered ex_iopt 0x3000 (0x3000 + (0x1000 - 1))"
    by blast
  with wf le r show ?thesis by blast
qed

text \<open>
  The claim as stated fails twice. A range that no Area covers gives \<open>ENOENT\<close>, which
  is not the \<open>EINVAL\<close> of a zero length; and a range of nonzero length that is page
  aligned, fully covered and readable still fails, with \<open>EINVAL\<close>, when its Area is
  draining.
\<close>

theorem pin_pages_invalid_range_counterexample:
  "fst (iommufd_access_pin_pages False no_pin_fault ex_access ex_iopt 0x3000 0x1000 0 ex_state)
     = Inl ENOENT \<and>
   fst (iommufd_access_pin_pages False no_pin_fault ex_access ex_iopt 0x3000 0 0 ex_state)
     = Inl EINVAL \<and>
   check_area_prot ex_area3 0 \<and>
   fst (iommufd_access_pin_pages False no_pin_fault ex_access ex_iopt_draining 0x3000 0x1000 0 ex_state)
     = Inl EINVAL"
  by (simp add: access_defs ex_defs)

text \<open>
  C7. \<open>iommufd_access_rw\<close> leaves the accesses of the Pages Stores as they were: it
  holds no pin after it returns. It makes the checks of \<open>iommufd_access_pin_pages\<close>
  other than the page alignment, with the same errnos: when the backing memory does not
  fault and every Area of the walk is page aligned, the two calls return the same
  code. The last conjunct spells the checks of \<open>iommufd_access_rw\<close> out.
\<close>

theorem access_rw_checks_as_pin_pages:
  "(iommufd_access_rw rwfault access iopt iova data len flags s = (rc, data', s') \<longrightarrow>
      accesses s' = accesses s) \<and>
   (\<not> (cfg \<and> (iova_alignment access \<noteq> PAGE_SIZE \<or> \<not> ops_unmap access)) \<and>
    (\<forall>p\<in>set (fst (contig_run (iopt_area_contig_init iopt iova (iova + (len - 1))))).
        iopt_area_contig_is_aligned (fst p) (snd p)) \<longrightarrow>
      fst (iommufd_access_rw (\<lambda>st start_byte n. None) access iopt iova data len flags s) =
        (case fst (iommufd_access_pin_pages cfg (\<lambda>k f. None) access iopt iova len flags s)
         of Inl err \<Rightarrow> Some err | Inr out \<Rightarrow> None)) \<and>
   fst (iommufd_access_rw rwfault access iopt iova data len flags s) =
     (if len = 0 then Some EINVAL
      else if iova + (len - 1) < iova then Some EOVERFLOW
      else case contig_run (iopt_area_contig_init iopt iova (iova + (len - 1))) of
        (w, e) \<Rightarrow>
          (case first_error (rw_check rwfault flags (iova + (len - 1))) w of
             Some err \<Rightarrow> Some err
           | None \<Rightarrow> if iopt_area_contig_done e then None else Some ENOENT))"
proof (intro conjI impI)
  assume "iommufd_access_rw rwfault access iopt iova data len flags s = (rc, data', s')"
  from access_rw_accesses [OF this] show "accesses s' = accesses s" by simp
next
  assume a: "\<not> (cfg \<and> (iova_alignment access \<noteq> PAGE_SIZE \<or> \<not> ops_unmap access)) \<and>
    (\<forall>p\<in>set (fst (contig_run (iopt_area_contig_init iopt iova (iova + (len - 1))))).
        iopt_area_contig_is_aligned (fst p) (snd p))"
  then have 1: "\<not> (cfg \<and> (iova_alignment access \<noteq> PAGE_SIZE \<or> \<not> ops_unmap access))"
    and 2: "\<forall>p\<in>set (fst (contig_run (iopt_area_contig_init iopt iova (iova + (len - 1))))).
        iopt_area_contig_is_aligned (fst p) (snd p)"
    by blast+
  show "fst (iommufd_access_rw (\<lambda>st start_byte n. None) access iopt iova data len flags s) =
      (case fst (iommufd_access_pin_pages cfg (\<lambda>k f. None) access iopt iova len flags s)
       of Inl err \<Rightarrow> Some err | Inr out \<Rightarrow> None)"
    by (rule access_rw_same_checks [OF 1 2])
next
  show "fst (iommufd_access_rw rwfault access iopt iova data len flags s) =
     (if len = 0 then Some EINVAL
      else if iova + (len - 1) < iova then Some EOVERFLOW
      else case contig_run (iopt_area_contig_init iopt iova (iova + (len - 1))) of
        (w, e) \<Rightarrow>
          (case first_error (rw_check rwfault flags (iova + (len - 1))) w of
             Some err \<Rightarrow> Some err
           | None \<Rightarrow> if iopt_area_contig_done e then None else Some ENOENT))"
    by (rule access_rw_result)
qed

text \<open>
  The witness: a write over both Areas of the example table, page aligned. Both calls
  return \<open>EPERM\<close> at the read-only Area, and the read-write leaves no access.
\<close>

theorem access_rw_checks_as_pin_pages_witness:
  "list_all (\<lambda>p. iopt_area_contig_is_aligned (fst p) (snd p))
     (fst (contig_run (iopt_area_contig_init ex_iopt 0x1000 (0x1000 + (0x2000 - 1))))) \<and>
   fst (iommufd_access_rw (\<lambda>st start_byte n. None) ex_access ex_iopt 0x1000 (\<lambda>k. 0) 0x2000 1 ex_state)
     = Some EPERM \<and>
   fst (iommufd_access_pin_pages True (\<lambda>k f. None) ex_access ex_iopt 0x1000 0x2000 1 ex_state)
     = Inl EPERM \<and>
   accesses (snd (snd (iommufd_access_rw (\<lambda>st start_byte n. None) ex_access ex_iopt 0x1000
     (\<lambda>k. 0) 0x2000 1 ex_state))) = {#}"
proof -
  have al: "\<forall>p\<in>set (fst (contig_run (iopt_area_contig_init ex_iopt 0x1000 (0x1000 + (0x2000 - 1))))).
      iopt_area_contig_is_aligned (fst p) (snd p)"
    by (simp add: access_defs ex_defs contig_run.simps(2))
  have c: "\<not> (True \<and> (iova_alignment ex_access \<noteq> PAGE_SIZE \<or> \<not> ops_unmap ex_access))"
    by (simp add: access_defs ex_defs)
  have pin: "fst (iommufd_access_pin_pages True (\<lambda>k f. None) ex_access ex_iopt 0x1000 0x2000 1 ex_state)
     = Inl EPERM"
    by (simp add: access_defs ex_defs)
  note inst = access_rw_checks_as_pin_pages [of "\<lambda>st start_byte n. None" ex_access ex_iopt "0x1000"
      "\<lambda>k. 0" "0x2000" 1 ex_state _ _ _ True]
  from inst al c pin
  have rw: "fst (iommufd_access_rw (\<lambda>st start_byte n. None) ex_access ex_iopt 0x1000 (\<lambda>k. 0)
      0x2000 1 ex_state) = Some EPERM"
    by simp
  obtain r d s' where res: "iommufd_access_rw (\<lambda>st start_byte n. None) ex_access ex_iopt 0x1000
      (\<lambda>k. 0) 0x2000 1 ex_state = (r, d, s')"
    by (cases "iommufd_access_rw (\<lambda>st start_byte n. None) ex_access ex_iopt 0x1000 (\<lambda>k. 0) 0x2000 1 ex_state")
  from inst [of r d s'] res have "accesses s' = {#}"
    by (simp add: ex_state_def)
  with al rw pin res show ?thesis by (simp add: list_all_iff)
qed

text \<open>
  C9. \<open>iommufd_access_rw\<close> is not atomic on failure. A call that returns an error and
  has changed the buffer or the memory has done exactly what a successful call with a
  shorter length does: the copies for the Areas before the failing one stay, so the
  result is a prefix of the requested transfer.
\<close>

theorem access_rw_error_keeps_prefix:
  assumes "iommufd_access_rw fault access iopt iova data len flags s = (Some err, data', s')"
    and "(data', s') \<noteq> (data, s)"
  shows "\<exists>len'. len' \<noteq> 0 \<and> len' < len \<and>
     iommufd_access_rw fault access iopt iova data len' flags s = (None, data', s')"
  using assms by (rule access_rw_error_prefix)

text \<open>
  The witness: a write of four bytes that starts two bytes before the end of the first
  Area of the example table. The second Area is read-only: the call returns \<open>EPERM\<close>,
  and the two bytes of the first Area are written.
\<close>

theorem access_rw_error_keeps_prefix_witness:
  "\<exists>data' s'. iommufd_access_rw no_rw_fault ex_access ex_iopt 0x1ffe (\<lambda>k. 0xAA) 4 1 ex_state
        = (Some EPERM, data', s') \<and>
     mem ex_state (0, 0xffe) = 0 \<and> mem s' (0, 0xffe) = 0xAA \<and> mem s' (0, 0xfff) = 0xAA \<and>
     (\<exists>len'. len' \<noteq> 0 \<and> len' < 4 \<and>
        iommufd_access_rw no_rw_fault ex_access ex_iopt 0x1ffe (\<lambda>k. 0xAA) len' 1 ex_state
          = (None, data', s'))"
proof -
  obtain r data' s' where res:
    "iommufd_access_rw no_rw_fault ex_access ex_iopt 0x1ffe (\<lambda>k. 0xAA) 4 1 ex_state = (r, data', s')"
    by (cases "iommufd_access_rw no_rw_fault ex_access ex_iopt 0x1ffe (\<lambda>k. 0xAA) 4 1 ex_state")
  have "fst (iommufd_access_rw no_rw_fault ex_access ex_iopt 0x1ffe (\<lambda>k. 0xAA) 4 1 ex_state)
      = Some EPERM"
    by (simp add: access_defs ex_defs)
  with res have r: "r = Some EPERM" by simp
  have "mem (snd (snd (iommufd_access_rw no_rw_fault ex_access ex_iopt 0x1ffe (\<lambda>k. 0xAA) 4 1 ex_state)))
      (0, 0xffe) = 0xAA"
    by (simp add: access_defs ex_defs)
  with res have m1: "mem s' (0, 0xffe) = 0xAA" by simp
  have "mem (snd (snd (iommufd_access_rw no_rw_fault ex_access ex_iopt 0x1ffe (\<lambda>k. 0xAA) 4 1 ex_state)))
      (0, 0xfff) = 0xAA"
    by (simp add: access_defs ex_defs)
  with res have m2: "mem s' (0, 0xfff) = 0xAA" by simp
  have m0: "mem ex_state (0, 0xffe) = 0" by (simp add: ex_state_def)
  from m0 m1 have "s' \<noteq> ex_state" by auto
  then have ne: "(data', s') \<noteq> (\<lambda>k. 0xAA, ex_state)" by simp
  from access_rw_error_keeps_prefix [OF res [unfolded r] ne] res r m0 m1 m2
  show ?thesis by blast
qed

text \<open>
  C10, as the code has it. \<open>iommufd_access_notify_unmap\<close> calls the unmap callback of
  every access on \<open>access_list\<close> whose object can be locked, in the order of the
  list, each with the whole \<open>(iova, length)\<close> of the unmap; no pin of the access is
  looked at. An access whose object cannot be locked, because it is being destroyed,
  gets no call.
\<close>

theorem notify_unmap_calls_lockable_accesses:
  "iommufd_access_notify_unmap unmap iopt iova len s =
     fold (\<lambda>access. unmap access (access_data access) iova len)
       (filter obj_lockable (access_list iopt)) s"
  by (simp add: iommufd_access_notify_unmap_def notify_unmap_loop_fold)

text \<open>
  The witness: two accesses, the second being destroyed; the callback records its
  arguments.
\<close>

theorem notify_unmap_calls_lockable_accesses_witness:
  "iommufd_access_notify_unmap log_unmap ex_iopt_accesses 0x1000 0x1000 [] = [(1, 0x1000, 0x1000)]"
  using notify_unmap_calls_lockable_accesses [of log_unmap ex_iopt_accesses "0x1000" "0x1000" "[]"]
  by (simp add: ex_defs ex_attach_defs)

text \<open>
  The claim as stated fails for a registered access whose object cannot be locked: its
  callback is not called.
\<close>

theorem notify_unmap_every_access_counterexample:
  "access_list (ex_iopt\<lparr>access_list := [ex_access\<lparr>obj_lockable := False\<rparr>]\<rparr>)
     = [ex_access\<lparr>obj_lockable := False\<rparr>] \<and>
   iommufd_access_notify_unmap log_unmap
     (ex_iopt\<lparr>access_list := [ex_access\<lparr>obj_lockable := False\<rparr>]\<rparr>) 0x1000 0x1000 [] = []"
  by (simp add: iommufd_access_notify_unmap_def ex_defs ex_attach_defs)

text \<open>
  C8. In \<open>iommufd_device_auto_get_domain\<close>, let no hardware page table before
  \<open>(hid, hwpt)\<close> on \<open>hwpt_list\<close> have ended the loop, and let \<open>hwpt\<close> be an
  \<open>auto_domain\<close> that can be locked. When its attach returns \<open>EINVAL\<close> the loop goes
  on with the rest of the list. Any other code, \<open>0\<close> or an errno, is what the function
  returns, with \<open>*pt_id\<close> the id of that candidate, and the rest of the list is not
  tried. When no candidate ends the loop the function returns what
  \<open>iommufd_hw_pagetable_alloc\<close> gives: the new hardware page table, marked
  \<open>auto_domain\<close>, or its errno. When, moreover, every step of the allocation can
  succeed (\<open>new_domain_ok\<close>), the function returns \<open>0\<close> and the id of the new object:
  the new hardware page table, with the domain that the driver allocated, is the last
  of \<open>hwpt_list\<close> and is an \<open>auto_domain\<close>, the domain has joined the domains of the
  table and holds an entry for every Area, and the group is bound to the new object
  with the device as its only member. Whenever the function returns an id after no
  candidate ended the loop, it returns \<open>0\<close>, the id is that of the new object, which
  is on \<open>hwpt_list\<close> as an \<open>auto_domain\<close> with the allocated domain, the domain is
  among the domains of the table and the device is in the group. A candidate that ends
  the loop is an \<open>auto_domain\<close> whose attach did not return \<open>EINVAL\<close>.
\<close>

theorem auto_get_domain_selection:
  "(hwpt_list s = pre @ (hid, hwpt) # rest \<and>
    auto_get_domain_loop e idev pre s = (None, pre', s0) \<and>
    auto_domain hwpt \<and> hwpt_lockable hwpt \<and>
    iommufd_hw_pagetable_attach e hid hwpt idev s0 = (rc, hwpt', s1) \<longrightarrow>
      (rc = Some EINVAL \<longrightarrow>
         auto_get_domain_loop e idev (hwpt_list s) s =
           (case auto_get_domain_loop e idev rest s1 of
              (r, rest', s') \<Rightarrow> (r, pre' @ (hid, hwpt') # rest', s'))) \<and>
      (rc \<noteq> Some EINVAL \<longrightarrow>
         iommufd_device_auto_get_domain e idev s =
           (rc, Some hid, s1\<lparr>hwpt_list := pre' @ (hid, hwpt') # rest\<rparr>))) \<and>
   (auto_get_domain_loop e idev (hwpt_list s) s = (None, l', s2) \<longrightarrow>
      iommufd_device_auto_get_domain e idev s =
        (case iommufd_hw_pagetable_alloc e idev None False True (s2\<lparr>hwpt_list := l'\<rparr>) of
           (Inl err, s3) \<Rightarrow> (Some err, None, s3)
         | (Inr (nid, nh), s3) \<Rightarrow>
             (None, Some nid,
              s3\<lparr>hwpt_list := map (\<lambda>(i, h). if i = nid
                    then (i, h\<lparr>auto_domain := True, hwpt_lockable := True\<rparr>) else (i, h))
                  (hwpt_list s3)\<rparr>))) \<and>
   (auto_get_domain_loop e idev (hwpt_list s) s = (None, l', s2) \<and>
    new_domain_ok e idev s newid d \<longrightarrow>
      (\<exists>nh s4. iommufd_device_auto_get_domain e idev s = (None, Some newid, s4) \<and>
         hwpt_list s4 = map (\<lambda>(i, h). if i = newid
              then (i, h\<lparr>auto_domain := True, hwpt_lockable := True\<rparr>) else (i, h)) l' @
            [(newid, nh)] \<and>
         auto_domain nh \<and> hwpt_lockable nh \<and> hwpt_item_linked nh \<and> hwpt_domain nh = d \<and>
         domains (ioas_iopt s4) = domains (ioas_iopt s) @ [d] \<and>
         area_itree (ioas_iopt s4) = area_itree (ioas_iopt s) \<and>
         device_list (igroup s4) = [idev_id idev] \<and> group_hwpt (igroup s4) = Some newid \<and>
         domain_entries s4 d = domain_entries s d +
           mset (map (\<lambda>a. (node_start a, node_last a)) (area_itree (ioas_iopt s))))) \<and>
   (auto_get_domain_loop e idev (hwpt_list s) s = (None, l', s2) \<and>
    iommufd_device_auto_get_domain e idev s = (rcn, Some idn, sn) \<longrightarrow>
      rcn = None \<and> object_alloc e = Inr idn \<and>
      (\<exists>nh. (idn, nh) \<in> set (hwpt_list sn) \<and> auto_domain nh \<and>
         (if has_domain_alloc_user e then domain_alloc_user e else domain_alloc e)
           = Some (hwpt_domain nh) \<and>
         hwpt_domain nh \<in> set (domains (ioas_iopt sn)) \<and>
         idev_id idev \<in> set (device_list (igroup sn)))) \<and>
   (auto_get_domain_loop e idev l s = (Some (rc', hid'), l'', s'') \<longrightarrow>
      rc' \<noteq> Some EINVAL \<and> (\<exists>h. (hid', h) \<in> set l \<and> auto_domain h \<and> hwpt_lockable h))"
proof (intro conjI impI)
  assume a: "hwpt_list s = pre @ (hid, hwpt) # rest \<and>
    auto_get_domain_loop e idev pre s = (None, pre', s0) \<and>
    auto_domain hwpt \<and> hwpt_lockable hwpt \<and>
    iommufd_hw_pagetable_attach e hid hwpt idev s0 = (rc, hwpt', s1)"
  then have 1: "hwpt_list s = pre @ (hid, hwpt) # rest"
    and 2: "auto_get_domain_loop e idev pre s = (None, pre', s0)"
    and 3: "auto_domain hwpt" and 4: "hwpt_lockable hwpt"
    and 5: "iommufd_hw_pagetable_attach e hid hwpt idev s0 = (rc, hwpt', s1)"
    by simp_all
  note c = auto_get_domain_candidate [OF 1 2 3 4 5]
  {
    assume "rc = Some EINVAL"
    with c show "auto_get_domain_loop e idev (hwpt_list s) s =
        (case auto_get_domain_loop e idev rest s1 of
           (r, rest', s') \<Rightarrow> (r, pre' @ (hid, hwpt') # rest', s'))"
      by simp
  }
  {
    assume "rc \<noteq> Some EINVAL"
    with c show "iommufd_device_auto_get_domain e idev s =
        (rc, Some hid, s1\<lparr>hwpt_list := pre' @ (hid, hwpt') # rest\<rparr>)"
      by simp
  }
next
  assume "auto_get_domain_loop e idev (hwpt_list s) s = (None, l', s2)"
  then show "iommufd_device_auto_get_domain e idev s =
      (case iommufd_hw_pagetable_alloc e idev None False True (s2\<lparr>hwpt_list := l'\<rparr>) of
         (Inl err, s3) \<Rightarrow> (Some err, None, s3)
       | (Inr (nid, nh), s3) \<Rightarrow>
           (None, Some nid,
            s3\<lparr>hwpt_list := map (\<lambda>(i, h). if i = nid
                  then (i, h\<lparr>auto_domain := True, hwpt_lockable := True\<rparr>) else (i, h))
                (hwpt_list s3)\<rparr>))"
    by (rule auto_get_domain_alloc)
next
  assume "auto_get_domain_loop e idev (hwpt_list s) s = (None, l', s2) \<and>
    new_domain_ok e idev s newid d"
  then have 1: "auto_get_domain_loop e idev (hwpt_list s) s = (None, l', s2)"
    and 2: "new_domain_ok e idev s newid d"
    by simp_all
  show "\<exists>nh s4. iommufd_device_auto_get_domain e idev s = (None, Some newid, s4) \<and>
         hwpt_list s4 = map (\<lambda>(i, h). if i = newid
              then (i, h\<lparr>auto_domain := True, hwpt_lockable := True\<rparr>) else (i, h)) l' @
            [(newid, nh)] \<and>
         auto_domain nh \<and> hwpt_lockable nh \<and> hwpt_item_linked nh \<and> hwpt_domain nh = d \<and>
         domains (ioas_iopt s4) = domains (ioas_iopt s) @ [d] \<and>
         area_itree (ioas_iopt s4) = area_itree (ioas_iopt s) \<and>
         device_list (igroup s4) = [idev_id idev] \<and> group_hwpt (igroup s4) = Some newid \<and>
         domain_entries s4 d = domain_entries s d +
           mset (map (\<lambda>a. (node_start a, node_last a)) (area_itree (ioas_iopt s)))"
    by (rule auto_get_domain_new [OF 1 2])
next
  assume a: "auto_get_domain_loop e idev (hwpt_list s) s = (None, l', s2) \<and>
    iommufd_device_auto_get_domain e idev s = (rcn, Some idn, sn)"
  then have 1: "auto_get_domain_loop e idev (hwpt_list s) s = (None, l', s2)"
    and 2: "iommufd_device_auto_get_domain e idev s = (rcn, Some idn, sn)"
    by simp_all
  note u = auto_get_domain_new_used [OF 1 2]
  from u show "rcn = None" by simp
  from u show "object_alloc e = Inr idn" by simp
  from u show "\<exists>nh. (idn, nh) \<in> set (hwpt_list sn) \<and> auto_domain nh \<and>
         (if has_domain_alloc_user e then domain_alloc_user e else domain_alloc e)
           = Some (hwpt_domain nh) \<and>
         hwpt_domain nh \<in> set (domains (ioas_iopt sn)) \<and>
         idev_id idev \<in> set (device_list (igroup sn))"
    by simp
next
  assume a: "auto_get_domain_loop e idev l s = (Some (rc', hid'), l'', s'')"
  from auto_get_domain_loop_Some [OF a] show "rc' \<noteq> Some EINVAL" by simp
  from auto_get_domain_loop_Some [OF a]
  show "\<exists>h. (hid', h) \<in> set l \<and> auto_domain h \<and> hwpt_lockable h" by simp
qed

text \<open>
  The witness. With two candidates, the domain of the first cannot enforce cache
  coherency, which the device needs, so its attach returns \<open>EINVAL\<close>; the second
  attaches, and the function returns \<open>0\<close> with its id. When neither candidate can
  enforce cache coherency, both are passed over, the domain 7 is allocated for the new
  object 9, the device is attached to it, and the two Areas are filled into it.
\<close>

theorem auto_get_domain_selection_witness:
  "iommufd_hw_pagetable_attach ex_env 1 ex_hwpt1 ex_idev ex_kstate = (Some EINVAL, ex_hwpt1, ex_kstate) \<and>
   auto_get_domain_loop ex_env ex_idev [(1, ex_hwpt1)] ex_kstate = (None, [(1, ex_hwpt1)], ex_kstate) \<and>
   auto_domain ex_hwpt2 \<and> hwpt_lockable ex_hwpt2 \<and>
   fst (iommufd_hw_pagetable_attach ex_env 2 ex_hwpt2 ex_idev ex_kstate) = None \<and>
   fst (iommufd_device_auto_get_domain ex_env ex_idev ex_kstate) = None \<and>
   fst (snd (iommufd_device_auto_get_domain ex_env ex_idev ex_kstate)) = Some 2 \<and>
   auto_get_domain_loop ex_env_new ex_idev (hwpt_list ex_kstate) ex_kstate
     = (None, hwpt_list ex_kstate, ex_kstate) \<and>
   new_domain_ok ex_env_new ex_idev ex_kstate 9 7 \<and>
   (\<exists>s4. iommufd_device_auto_get_domain ex_env_new ex_idev ex_kstate = (None, Some 9, s4) \<and>
      hwpt_list s4 = [(1, ex_hwpt1), (2, ex_hwpt2),
        (9, ex_hwpt_new\<lparr>enforce_cache_coherency := True, msi_cookie := True, auto_domain := True,
              hwpt_lockable := True, hwpt_item_linked := True\<rparr>)] \<and>
      domains (ioas_iopt s4) = [7] \<and> device_list (igroup s4) = [5] \<and>
      group_hwpt (igroup s4) = Some 9 \<and>
      domain_entries s4 7 = {#(0x1000, 0x1fff), (0x2000, 0x2fff)#})"
proof -
  note inst = auto_get_domain_selection
  have l: "hwpt_list ex_kstate = [(1, ex_hwpt1)] @ (2, ex_hwpt2) # []"
    by (simp add: ex_attach_defs)
  have a1: "iommufd_hw_pagetable_attach ex_env 1 ex_hwpt1 ex_idev ex_kstate
      = (Some EINVAL, ex_hwpt1, ex_kstate)"
    by (simp add: attach_defs access_defs ex_defs ex_attach_defs)
  have pre: "auto_get_domain_loop ex_env ex_idev [(1, ex_hwpt1)] ex_kstate
      = (None, [(1, ex_hwpt1)], ex_kstate)"
    by (simp add: attach_defs access_defs ex_defs ex_attach_defs)
  have c: "auto_domain ex_hwpt2" "hwpt_lockable ex_hwpt2"
    by (simp_all add: ex_attach_defs)
  have rc: "fst (iommufd_hw_pagetable_attach ex_env 2 ex_hwpt2 ex_idev ex_kstate) = None"
    by (simp add: attach_defs access_defs ex_defs ex_attach_defs)
  then obtain hwpt' s1 where a2:
    "iommufd_hw_pagetable_attach ex_env 2 ex_hwpt2 ex_idev ex_kstate = (None, hwpt', s1)"
    by (cases "iommufd_hw_pagetable_attach ex_env 2 ex_hwpt2 ex_idev ex_kstate") simp
  from inst [where s = ex_kstate and pre = "[(1, ex_hwpt1)]" and hid = 2 and hwpt = ex_hwpt2
      and rest = "[]" and e = ex_env and idev = ex_idev and pre' = "[(1, ex_hwpt1)]"
      and ?s0.0 = ex_kstate and rc = None and hwpt' = hwpt' and ?s1.0 = s1] l pre c a2
  have sel: "iommufd_device_auto_get_domain ex_env ex_idev ex_kstate =
      (None, Some 2, s1\<lparr>hwpt_list := [(1, ex_hwpt1)] @ (2, hwpt') # []\<rparr>)"
    by simp
  have lp: "auto_get_domain_loop ex_env_new ex_idev (hwpt_list ex_kstate) ex_kstate
      = (None, hwpt_list ex_kstate, ex_kstate)"
    by (simp add: attach_defs access_defs ex_defs ex_attach_defs)
  have ok: "new_domain_ok ex_env_new ex_idev ex_kstate 9 7"
    by (simp add: new_domain_ok_def ex_defs ex_attach_defs)
  from inst [where s = ex_kstate and e = ex_env_new and idev = ex_idev
      and l' = "hwpt_list ex_kstate" and ?s2.0 = ex_kstate and newid = 9 and d = 7] lp ok
  obtain nh s4 where
    r: "iommufd_device_auto_get_domain ex_env_new ex_idev ex_kstate = (None, Some 9, s4)"
    and dm: "domains (ioas_iopt s4) = domains (ioas_iopt ex_kstate) @ [7]"
    and dl: "device_list (igroup s4) = [idev_id ex_idev]"
    and gh: "group_hwpt (igroup s4) = Some 9"
    and de: "domain_entries s4 7 = domain_entries ex_kstate 7 +
        mset (map (\<lambda>a. (node_start a, node_last a)) (area_itree (ioas_iopt ex_kstate)))"
    by blast
  have "hwpt_list (snd (snd (iommufd_device_auto_get_domain ex_env_new ex_idev ex_kstate))) =
      [(1, ex_hwpt1), (2, ex_hwpt2),
        (9, ex_hwpt_new\<lparr>enforce_cache_coherency := True, msi_cookie := True, auto_domain := True,
              hwpt_lockable := True, hwpt_item_linked := True\<rparr>)]"
    by (simp add: attach_defs access_defs ex_defs ex_attach_defs)
  with r have hl: "hwpt_list s4 = [(1, ex_hwpt1), (2, ex_hwpt2),
        (9, ex_hwpt_new\<lparr>enforce_cache_coherency := True, msi_cookie := True, auto_domain := True,
              hwpt_lockable := True, hwpt_item_linked := True\<rparr>)]"
    by simp
  from dm have dm': "domains (ioas_iopt s4) = [7]" by (simp add: ex_defs ex_attach_defs)
  from dl have dl': "device_list (igroup s4) = [5]" by (simp add: ex_attach_defs)
  from de have de': "domain_entries s4 7 = {#(0x1000, 0x1fff), (0x2000, 0x2fff)#}"
    by (simp add: ex_defs ex_attach_defs)
  from r hl dm' dl' gh de' have new: "\<exists>s4. iommufd_device_auto_get_domain ex_env_new ex_idev ex_kstate
        = (None, Some 9, s4) \<and>
      hwpt_list s4 = [(1, ex_hwpt1), (2, ex_hwpt2),
        (9, ex_hwpt_new\<lparr>enforce_cache_coherency := True, msi_cookie := True, auto_domain := True,
              hwpt_lockable := True, hwpt_item_linked := True\<rparr>)] \<and>
      domains (ioas_iopt s4) = [7] \<and> device_list (igroup s4) = [5] \<and>
      group_hwpt (igroup s4) = Some 9 \<and>
      domain_entries s4 7 = {#(0x1000, 0x1fff), (0x2000, 0x2fff)#}"
    by blast
  from a1 pre c rc sel lp ok new show ?thesis by simp
qed

text \<open>
  C5, as the code has it. When \<open>iommufd_hw_pagetable_attach\<close> returns an error, and
  when \<open>iommufd_hw_pagetable_alloc\<close> returns one at any step (the attach of the device
  or the link of the new domain to the table), the table and the binding of the group
  are rolled back: the table is as before the call, or as before without the reserved
  regions of the device, so no Area and no attached domain has changed; no hardware
  page table has joined \<open>hwpt_list\<close>; the group is bound as before; and the entries of
  every domain are those before the call, so that a domain without entries, as a newly
  allocated one is, ends with none. The rollback is not complete. What \<open>same_table\<close>
  leaves open is \<open>sw_msi_start\<close> of the group, which keeps the value that
  \<open>iopt_table_enforce_dev_resv_regions\<close> stored; and the hardware page table that
  \<open>iommufd_hw_pagetable_attach\<close> was given keeps \<open>enforce_cache_coherency\<close> and
  \<open>msi_cookie\<close> as the attempt set them, and is otherwise as before. For the
  allocation the group must satisfy its invariant (it has a hardware page table exactly
  when it has a device), and the id of the new object must be fresh.
\<close>

theorem hw_pagetable_attach_failure_rolls_back:
  "(iommufd_hw_pagetable_attach e hid hwpt idev s = (Some err, hwpt', s') \<longrightarrow>
      same_table (dev idev) s s' \<and> kwarned s' = kwarned s \<and>
      hwpt' = hwpt\<lparr>enforce_cache_coherency := enforce_cache_coherency hwpt',
                     msi_cookie := msi_cookie hwpt'\<rparr> \<and>
      (domain_entries s (hwpt_domain hwpt) = {#} \<longrightarrow> domain_entries s' (hwpt_domain hwpt) = {#})) \<and>
   ((device_list (igroup s) = [] \<longleftrightarrow> group_hwpt (igroup s) = None) \<and>
    (\<forall>nid. object_alloc e = Inr nid \<longrightarrow> group_hwpt (igroup s) \<noteq> Some nid) \<and>
    iommufd_hw_pagetable_alloc e idev parent user_data immediate_attach s = (Inl err2, s'') \<longrightarrow>
      same_table (dev idev) s s'' \<and>
      (\<forall>d. domain_entries s d = {#} \<longrightarrow> domain_entries s'' d = {#}))"
proof (intro conjI impI allI)
  assume a: "iommufd_hw_pagetable_attach e hid hwpt idev s = (Some err, hwpt', s')"
  from a show t: "same_table (dev idev) s s'" by (rule attach_failure)
  from attach_hwpt [OF a] show "kwarned s' = kwarned s" by simp
  from attach_hwpt [OF a]
  show "hwpt' = hwpt\<lparr>enforce_cache_coherency := enforce_cache_coherency hwpt',
      msi_cookie := msi_cookie hwpt'\<rparr>"
    by simp
  assume "domain_entries s (hwpt_domain hwpt) = {#}"
  with t show "domain_entries s' (hwpt_domain hwpt) = {#}" by (simp add: same_table_def)
next
  assume a: "(device_list (igroup s) = [] \<longleftrightarrow> group_hwpt (igroup s) = None) \<and>
    (\<forall>nid. object_alloc e = Inr nid \<longrightarrow> group_hwpt (igroup s) \<noteq> Some nid) \<and>
    iommufd_hw_pagetable_alloc e idev parent user_data immediate_attach s = (Inl err2, s'')"
  then have 1: "device_list (igroup s) = [] \<longleftrightarrow> group_hwpt (igroup s) = None"
    and 2: "\<forall>nid. object_alloc e = Inr nid \<longrightarrow> group_hwpt (igroup s) \<noteq> Some nid"
    and 3: "iommufd_hw_pagetable_alloc e idev parent user_data immediate_attach s = (Inl err2, s'')"
    by blast+
  show t: "same_table (dev idev) s s''" by (rule alloc_failure [OF 3 1 2])
  fix d assume "domain_entries s d = {#}"
  with t show "domain_entries s'' d = {#}" by (simp add: same_table_def)
qed

text \<open>
  The witness: an attach of the device to a new hardware page table that fails in
  \<open>iommu_attach_group\<close>, after the reserved region of the device was added; and an
  allocation with immediate attach where the device attaches, its reserved region is
  added, and filling the second Area into the new domain fails with \<open>ENOMEM\<close>. Both
  leave the table, the lists and the entries of the domains as they were; the new
  domain 7 has no entry.
\<close>

theorem hw_pagetable_attach_failure_rolls_back_witness:
  "iommufd_hw_pagetable_attach ex_env_nodev 9 ex_hwpt_new ex_idev ex_kstate =
     (Some ENODEV, ex_hwpt_new\<lparr>enforce_cache_coherency := True, msi_cookie := True\<rparr>,
      ex_kstate\<lparr>igroup := (igroup ex_kstate)\<lparr>sw_msi_start := 0xfee00000\<rparr>\<rparr>) \<and>
   same_table (dev ex_idev) ex_kstate
     (ex_kstate\<lparr>igroup := (igroup ex_kstate)\<lparr>sw_msi_start := 0xfee00000\<rparr>\<rparr>) \<and>
   domain_entries ex_kstate (hwpt_domain ex_hwpt_new) = {#} \<and>
   domain_entries (ex_kstate\<lparr>igroup := (igroup ex_kstate)\<lparr>sw_msi_start := 0xfee00000\<rparr>\<rparr>)
     (hwpt_domain ex_hwpt_new) = {#} \<and>
   device_list (igroup ex_kstate) = [] \<and> group_hwpt (igroup ex_kstate) = None \<and>
   object_alloc ex_env = Inr 9 \<and>
   (\<exists>s''. iommufd_hw_pagetable_alloc ex_env ex_idev None False True ex_kstate = (Inl ENOMEM, s'') \<and>
      same_table (dev ex_idev) ex_kstate s'' \<and> ioas_iopt s'' = ex_iopt \<and> domain_entries s'' 7 = {#})"
proof -
  have a: "iommufd_hw_pagetable_attach ex_env_nodev 9 ex_hwpt_new ex_idev ex_kstate =
      (Some ENODEV, ex_hwpt_new\<lparr>enforce_cache_coherency := True, msi_cookie := True\<rparr>,
       ex_kstate\<lparr>igroup := (igroup ex_kstate)\<lparr>sw_msi_start := 0xfee00000\<rparr>\<rparr>)"
    by (simp add: attach_defs access_defs ex_defs ex_attach_defs)
  have e0: "domain_entries ex_kstate (hwpt_domain ex_hwpt_new) = {#}"
    "domain_entries ex_kstate 7 = {#}"
    by (simp_all add: ex_attach_defs)
  have inv: "device_list (igroup ex_kstate) = [] \<longleftrightarrow> group_hwpt (igroup ex_kstate) = None"
    by (simp add: ex_attach_defs)
  have fresh: "\<forall>nid. object_alloc ex_env = Inr nid \<longrightarrow> group_hwpt (igroup ex_kstate) \<noteq> Some nid"
    by (simp add: ex_attach_defs)
  have "fst (iommufd_hw_pagetable_alloc ex_env ex_idev None False True ex_kstate) = Inl ENOMEM"
    by (simp add: attach_defs access_defs ex_defs ex_attach_defs)
  then obtain s'' where al:
    "iommufd_hw_pagetable_alloc ex_env ex_idev None False True ex_kstate = (Inl ENOMEM, s'')"
    by (cases "iommufd_hw_pagetable_alloc ex_env ex_idev None False True ex_kstate") simp
  have "ioas_iopt (snd (iommufd_hw_pagetable_alloc ex_env ex_idev None False True ex_kstate)) = ex_iopt"
    by (simp add: attach_defs access_defs ex_defs ex_attach_defs)
  with al have t: "ioas_iopt s'' = ex_iopt" by simp
  note inst = hw_pagetable_attach_failure_rolls_back
  from inst [of ex_env_nodev 9 ex_hwpt_new ex_idev ex_kstate ENODEV
      "ex_hwpt_new\<lparr>enforce_cache_coherency := True, msi_cookie := True\<rparr>"
      "ex_kstate\<lparr>igroup := (igroup ex_kstate)\<lparr>sw_msi_start := 0xfee00000\<rparr>\<rparr>"] a e0
  have 1: "same_table (dev ex_idev) ex_kstate
        (ex_kstate\<lparr>igroup := (igroup ex_kstate)\<lparr>sw_msi_start := 0xfee00000\<rparr>\<rparr>)"
    and 2: "domain_entries (ex_kstate\<lparr>igroup := (igroup ex_kstate)\<lparr>sw_msi_start := 0xfee00000\<rparr>\<rparr>)
        (hwpt_domain ex_hwpt_new) = {#}"
    by blast+
  from inst [of ex_env 9 ex_hwpt_new ex_idev ex_kstate ENODEV ex_hwpt_new ex_kstate None False True
      ENOMEM s''] inv fresh al e0
  have 3: "same_table (dev ex_idev) ex_kstate s''" and 4: "domain_entries s'' 7 = {#}"
    by blast+
  have "device_list (igroup ex_kstate) = []" "group_hwpt (igroup ex_kstate) = None"
    "object_alloc ex_env = Inr 9"
    by (simp_all add: ex_attach_defs)
  with a e0 1 2 al 3 4 t show ?thesis by blast
qed

text \<open>
  The claim as stated fails where it says that the rollback is complete. The reserved
  region of the device is the software MSI window at \<open>0xfee00000\<close>, and
  \<open>iommu_attach_group\<close> fails. After the failed attach, and after the failed
  allocation, the group keeps \<open>sw_msi_start = 0xfee00000\<close> where it had
  \<open>PHYS_ADDR_MAX\<close>, and the hardware page table keeps the coherency upgrade and the
  MSI cookie.
\<close>

theorem hw_pagetable_attach_not_complete_counterexample:
  "iommufd_hw_pagetable_attach ex_env_nodev 9 ex_hwpt_new ex_idev ex_kstate =
     (Some ENODEV, ex_hwpt_new\<lparr>enforce_cache_coherency := True, msi_cookie := True\<rparr>,
      ex_kstate\<lparr>igroup := (igroup ex_kstate)\<lparr>sw_msi_start := 0xfee00000\<rparr>\<rparr>) \<and>
   iommufd_hw_pagetable_alloc ex_env_nodev ex_idev None False True ex_kstate =
     (Inl ENODEV, ex_kstate\<lparr>igroup := (igroup ex_kstate)\<lparr>sw_msi_start := 0xfee00000\<rparr>\<rparr>) \<and>
   sw_msi_start (igroup ex_kstate) = 0xffffffffffffffff \<and>
   ex_kstate\<lparr>igroup := (igroup ex_kstate)\<lparr>sw_msi_start := 0xfee00000\<rparr>\<rparr> \<noteq> ex_kstate \<and>
   enforce_cache_coherency ex_hwpt_new = False \<and> msi_cookie ex_hwpt_new = False"
proof -
  have "sw_msi_start (igroup (ex_kstate\<lparr>igroup := (igroup ex_kstate)\<lparr>sw_msi_start := 0xfee00000\<rparr>\<rparr>))
      \<noteq> sw_msi_start (igroup ex_kstate)"
    by (simp add: ex_attach_defs PHYS_ADDR_MAX_def)
  then have "ex_kstate\<lparr>igroup := (igroup ex_kstate)\<lparr>sw_msi_start := 0xfee00000\<rparr>\<rparr> \<noteq> ex_kstate"
    by metis
  moreover have "iommufd_hw_pagetable_attach ex_env_nodev 9 ex_hwpt_new ex_idev ex_kstate =
     (Some ENODEV, ex_hwpt_new\<lparr>enforce_cache_coherency := True, msi_cookie := True\<rparr>,
      ex_kstate\<lparr>igroup := (igroup ex_kstate)\<lparr>sw_msi_start := 0xfee00000\<rparr>\<rparr>)"
    by (simp add: attach_defs access_defs ex_defs ex_attach_defs)
  moreover have "iommufd_hw_pagetable_alloc ex_env_nodev ex_idev None False True ex_kstate =
     (Inl ENODEV, ex_kstate\<lparr>igroup := (igroup ex_kstate)\<lparr>sw_msi_start := 0xfee00000\<rparr>\<rparr>)"
    by (simp add: attach_defs access_defs ex_defs ex_attach_defs)
  moreover have "sw_msi_start (igroup ex_kstate) = 0xffffffffffffffff"
    "enforce_cache_coherency ex_hwpt_new = False" "msi_cookie ex_hwpt_new = False"
    by (simp_all add: ex_attach_defs PHYS_ADDR_MAX_def)
  ultimately show ?thesis by simp
qed

end
